theory Spec2Isabelle
  imports Main "HOL-Library.Char_ord" "HOL-Library.List_Lexorder" "HOL-Library.AList"
begin

section \<open>String helpers\<close>

text \<open>
  The program is a single C++ translation unit, present in two versions: the original
  artifact (a plain \<open>struct Course\<close>, no graph) and the enhanced artifact (a \<open>class Course\<close>,
  a dependency graph and Kahn's algorithm). The string helpers are the same text in both.

  A \<open>std::string\<close> is a sequence of bytes, here \<open>string\<close> (\<open>char list\<close>, a \<open>char\<close> being
  one byte). The helpers cast every byte to \<open>unsigned char\<close> before they classify it, and the
  program never calls \<open>setlocale\<close>, so \<open>isspace\<close>, \<open>isalnum\<close> and \<open>toupper\<close> are those of the
  "C" locale, given here on the byte's value \<open>0..255\<close>.
\<close>

definition isspace :: "char \<Rightarrow> bool" where
  "isspace ch = (let n = (of_char ch :: nat) in n = 32 \<or> (9 \<le> n \<and> n \<le> 13))"

definition isalnum :: "char \<Rightarrow> bool" where
  "isalnum ch = (let n = (of_char ch :: nat) in
     (48 \<le> n \<and> n \<le> 57) \<or> (65 \<le> n \<and> n \<le> 90) \<or> (97 \<le> n \<and> n \<le> 122))"

definition toupper :: "char \<Rightarrow> char" where
  "toupper ch = (let n = (of_char ch :: nat) in
     if 97 \<le> n \<and> n \<le> 122 then char_of (n - 32) else ch)"

text \<open>\<open>ltrim\<close> erases up to the first byte that is not a space, \<open>rtrim\<close> from behind the
  last such byte to the end.\<close>

definition ltrim :: "string \<Rightarrow> string" where
  "ltrim s = dropWhile isspace s"

definition rtrim :: "string \<Rightarrow> string" where
  "rtrim s = rev (dropWhile isspace (rev s))"

definition trim :: "string \<Rightarrow> string" where
  "trim s = rtrim (ltrim s)"

definition stripBOM :: "string \<Rightarrow> string" where
  "stripBOM s =
     (if length s \<ge> 3 \<and> (of_char (s ! 0) :: nat) = 0xEF \<and> (of_char (s ! 1) :: nat) = 0xBB
         \<and> (of_char (s ! 2) :: nat) = 0xBF
      then drop 3 s else s)"

definition canonCode :: "string \<Rightarrow> string" where
  "canonCode s = map toupper (filter isalnum (trim (stripBOM s)))"

text \<open>
  \<open>std::getline(stream, field, delim)\<close> called until it fails: a call succeeds when it
  extracts the delimiter or at least one byte, so the input \<open>a,\<close> gives the one field \<open>a\<close>,
  the input \<open>,\<close> gives one empty field and the empty input gives none. \<open>cur\<close> is the field
  read so far.
\<close>

fun getlines :: "char \<Rightarrow> string \<Rightarrow> string \<Rightarrow> string list" where
  "getlines delim cur [] = (if cur = [] then [] else [cur])"
| "getlines delim cur (c # cs) =
     (if c = delim then cur # getlines delim [] cs else getlines delim (cur @ [c]) cs)"

definition splitCSV :: "string \<Rightarrow> string list" where
  "splitCSV line = map (\<lambda>field. trim (stripBOM field)) (getlines CHR '','' [] line)"

section \<open>Data model\<close>

text \<open>
  A course: its normalized code, its title and its prerequisite codes in file order. The
  original artifact has it as a struct, the enhanced one as a class with the same three
  members behind accessors.
\<close>

record Course =
  number :: string
  title :: string
  prereqs :: "string list"

text \<open>
  \<open>std::unordered_map\<close> is an association list with one entry for each key. The order in
  which the program iterates over the container is unspecified in C++; here it is the order
  of the list, and the statements below quantify over every such order. \<open>umap_find\<close> is
  \<open>find\<close>, \<open>umap_at\<close> is \<open>at\<close>, which throws \<open>std::out_of_range\<close> on a key that is absent,
  \<open>subscript d k\<close> is the insertion \<open>operator[]\<close> performs when the key is absent (\<open>d\<close> the
  value-initialised entry), \<open>lookup d m k\<close> the value \<open>m[k]\<close> then refers to, and
  \<open>AList.update k v\<close> the assignment \<open>m[k] = v\<close>.
\<close>

type_synonym Catalog = "(string \<times> Course) list"

datatype exn = OutOfRange

definition umap_find :: "('k \<times> 'v) list \<Rightarrow> 'k \<Rightarrow> 'v option" where
  "umap_find m k = map_of m k"

definition umap_at :: "('k \<times> 'v) list \<Rightarrow> 'k \<Rightarrow> exn + 'v" where
  "umap_at m k = (case map_of m k of None \<Rightarrow> Inl OutOfRange | Some v \<Rightarrow> Inr v)"

definition subscript :: "'v \<Rightarrow> 'k \<Rightarrow> ('k \<times> 'v) list \<Rightarrow> ('k \<times> 'v) list" where
  "subscript d k m = (case map_of m k of None \<Rightarrow> m @ [(k, d)] | Some v \<Rightarrow> m)"

definition lookup :: "'v \<Rightarrow> ('k \<times> 'v) list \<Rightarrow> 'k \<Rightarrow> 'v" where
  "lookup d m k = (case map_of m k of None \<Rightarrow> d | Some v \<Rightarrow> v)"

text \<open>The end of a line, and the decimal digits \<open>operator<<\<close> prints for an unsigned number.\<close>

definition nl :: string where
  "nl = [CHR 0x0A]"

fun show_nat :: "nat \<Rightarrow> string" where
  "show_nat n =
     (if n < 10 then [char_of (48 + n)] else show_nat (n div 10) @ [char_of (48 + n mod 10)])"

declare show_nat.simps [simp del]

text \<open>
  The loop that prints one line \<open>number, title\<close> for each key of a sorted key vector (the
  same statement in both artifacts), and a list of items with a separator between them.
\<close>

fun printEntries :: "Catalog \<Rightarrow> string list \<Rightarrow> string \<Rightarrow> exn + string" where
  "printEntries catalog [] out = Inr out"
| "printEntries catalog (k # ks) out =
     (case umap_at catalog k of
        Inl e \<Rightarrow> Inl e
      | Inr c \<Rightarrow> printEntries catalog ks (out @ number c @ '', '' @ title c @ nl))"

fun join :: "string \<Rightarrow> string list \<Rightarrow> string" where
  "join sep [] = []"
| "join sep [x] = x"
| "join sep (x # y # ys) = x @ sep @ join sep (y # ys)"

section \<open>Original artifact\<close>

text \<open>
  \<open>loadCourses\<close> of the original artifact. \<open>pushPrereq\<close> is the body of the loop over the
  fields from the third on, \<open>loadLine_orig\<close> the body of the loop over the lines; its state is
  the line counter (a \<open>size_t\<close>, which a file cannot overflow), the catalog and what has been
  written to \<open>std::cerr\<close>. The file system is a map from file names to contents; a name it
  does not map is a file that \<open>std::ifstream\<close> cannot open. The result is the returned flag,
  the catalog the reference parameter holds afterwards, and the text on \<open>std::cerr\<close>.
\<close>

definition pushPrereq :: "string \<Rightarrow> string list \<Rightarrow> string list" where
  "pushPrereq field ps = (let p = canonCode field in if p \<noteq> [] then ps @ [p] else ps)"

definition loadLine_orig :: "string \<Rightarrow> nat \<times> Catalog \<times> string \<Rightarrow> nat \<times> Catalog \<times> string" where
  "loadLine_orig line st = (case st of (lineNum0, catalog, cerr) \<Rightarrow>
     let lineNum = lineNum0 + 1; check = trim (stripBOM line) in
     if check = [] \<or> hd check = CHR ''#'' then (lineNum, catalog, cerr)
     else
       let fields = splitCSV line in
       if length fields < 2
       then (lineNum, catalog,
             cerr @ ''Warning line '' @ show_nat lineNum @ '': not enough fields; skipping.'' @ nl)
       else
         let c = \<lparr>number = canonCode (fields ! 0), title = fields ! 1,
                  prereqs = fold pushPrereq (drop 2 fields) []\<rparr> in
         if number c = []
         then (lineNum, catalog,
               cerr @ ''Warning line '' @ show_nat lineNum
                 @ '': empty course code after normalization; skipping.'' @ nl)
         else (lineNum, AList.update (number c) c catalog, cerr))"

definition loadCourses_orig ::
  "(string \<rightharpoonup> string) \<Rightarrow> string \<Rightarrow> Catalog \<Rightarrow> bool \<times> Catalog \<times> string" where
  "loadCourses_orig fs filename catalog =
     (case fs filename of
        None \<Rightarrow> (False, catalog, [])
      | Some content \<Rightarrow>
          (case fold loadLine_orig (getlines CHR 0x0A [] content) (0, [], []) of
             (lineNum, catalog', cerr) \<Rightarrow> (True, catalog', cerr)))"

definition printCourseList_orig :: "Catalog \<Rightarrow> exn + string" where
  "printCourseList_orig catalog =
     (if catalog = [] then Inr (''No data loaded. Please load the data structure first.'' @ nl)
      else printEntries catalog (sort (map fst catalog)) (''Here is a sample schedule:'' @ nl))"

definition prereqText :: "Catalog \<Rightarrow> string \<Rightarrow> string" where
  "prereqText catalog p =
     (case umap_find catalog p of
        Some pc \<Rightarrow> number pc @ '', '' @ title pc
      | None \<Rightarrow> p @ '' (title unavailable)'')"

definition printSingleCourse_orig :: "Catalog \<Rightarrow> string \<Rightarrow> string" where
  "printSingleCourse_orig catalog userInputRaw =
     (if catalog = [] then ''No data loaded. Please load the data structure first.'' @ nl
      else
        let key = canonCode userInputRaw in
        case umap_find catalog key of
          None \<Rightarrow> ''Course '' @ userInputRaw @ '' was not found.'' @ nl
        | Some c \<Rightarrow>
            number c @ '', '' @ title c @ nl @
            (if prereqs c = [] then ''Prerequisites: None'' @ nl
             else ''Prerequisites: '' @ join ''; '' (map (prereqText catalog) (prereqs c)) @ nl))"

section \<open>Enhanced artifact: loading\<close>

text \<open>The constructor \<open>Course(number, title)\<close> and the method \<open>addPrereq\<close>.\<close>

definition newCourse :: "string \<Rightarrow> string \<Rightarrow> Course" where
  "newCourse num ttl = \<lparr>number = canonCode num, title = ttl, prereqs = []\<rparr>"

definition addPrereq :: "string \<Rightarrow> Course \<Rightarrow> Course" where
  "addPrereq p c =
     (let norm = canonCode p in if norm \<noteq> [] then c\<lparr>prereqs := prereqs c @ [norm]\<rparr> else c)"

text \<open>The body of the \<open>while (std::getline(fin, line))\<close> loop of \<open>loadCourses\<close>.\<close>

definition loadLine :: "string \<Rightarrow> Catalog \<Rightarrow> Catalog" where
  "loadLine line catalog =
     (let check = trim (stripBOM line) in
      if check = [] \<or> hd check = CHR ''#'' then catalog
      else
        let fields = splitCSV line in
        if length fields < 2 then catalog
        else
          let c = fold addPrereq (drop 2 fields) (newCourse (fields ! 0) (fields ! 1))
          in AList.update (number c) c catalog)"

text \<open>The result is the returned flag and the catalog the reference parameter holds
  afterwards; this version writes no warning.\<close>

definition loadCourses :: "(string \<rightharpoonup> string) \<Rightarrow> string \<Rightarrow> Catalog \<Rightarrow> bool \<times> Catalog" where
  "loadCourses fs filename catalog =
     (case fs filename of
        None \<Rightarrow> (False, catalog)
      | Some content \<Rightarrow> (True, fold loadLine (getlines CHR 0x0A [] content) []))"

section \<open>Enhanced artifact: listing and detail\<close>

definition printCourseList :: "Catalog \<Rightarrow> exn + string" where
  "printCourseList catalog =
     (if catalog = [] then Inr (''No data loaded.'' @ nl)
      else printEntries catalog (sort (map fst catalog)) (''Course List:'' @ nl))"

definition printSingleCourse :: "Catalog \<Rightarrow> string \<Rightarrow> string" where
  "printSingleCourse catalog rawInput =
     (let key = canonCode rawInput in
      case umap_find catalog key of
        None \<Rightarrow> ''Course not found.'' @ nl
      | Some c \<Rightarrow>
          number c @ '', '' @ title c @ nl @
          (if prereqs c = [] then ''Prerequisites: None'' @ nl
           else ''Prerequisites: '' @ join '', '' (prereqs c) @ nl))"

section \<open>Enhanced artifact: graph and topological sort\<close>

text \<open>
  \<open>buildGraph\<close>: both maps are cleared, the first loop gives every catalog key an entry, the
  second adds, for every prerequisite \<open>p\<close> of a course that \<open>catalog.find\<close> finds, the
  course's key to \<open>adj[p]\<close> and one to the course's in-degree. The in-degree is a C++ \<open>int\<close>,
  here an unbounded \<open>int\<close>: it never exceeds the length of one course's prerequisite list
  and is never taken below zero, so it would wrap only on a line of more than \<open>2^31\<close>
  fields.
\<close>

type_synonym Adj = "(string \<times> string list) list"
type_synonym Indegree = "(string \<times> int) list"

definition initNode :: "string \<times> Course \<Rightarrow> Adj \<times> Indegree \<Rightarrow> Adj \<times> Indegree" where
  "initNode kv g = (case g of (adj, indegree) \<Rightarrow>
     (subscript [] (fst kv) adj, AList.update (fst kv) 0 indegree))"

definition addEdge :: "Catalog \<Rightarrow> string \<Rightarrow> string \<Rightarrow> Adj \<times> Indegree \<Rightarrow> Adj \<times> Indegree" where
  "addEdge catalog k p g = (case g of (adj, indegree) \<Rightarrow>
     if umap_find catalog p \<noteq> None
     then (AList.update p (lookup [] adj p @ [k]) adj,
           AList.update k (lookup 0 indegree k + 1) indegree)
     else (adj, indegree))"

definition addEdges :: "Catalog \<Rightarrow> string \<times> Course \<Rightarrow> Adj \<times> Indegree \<Rightarrow> Adj \<times> Indegree" where
  "addEdges catalog kv g = fold (addEdge catalog (fst kv)) (prereqs (snd kv)) g"

definition buildGraph :: "Catalog \<Rightarrow> Adj \<times> Indegree" where
  "buildGraph catalog = fold (addEdges catalog) catalog (fold initNode catalog ([], []))"

text \<open>
  The sorter's state: \<open>adj\<close>, the ordered set \<open>zero\<close> (a \<open>std::set\<close>, here a strictly
  ascending list: \<open>begin()\<close> is its head, \<open>insert\<close> is \<open>insort_insert\<close>), \<open>indegree\<close> and
  the vector \<open>order\<close>. \<open>decr v\<close> is the body of the loop over \<open>adj[u]\<close>, \<open>kahn_step\<close> the body
  of the \<open>while\<close> loop.
\<close>

type_synonym Kahn = "Adj \<times> string list \<times> Indegree \<times> string list"

definition decr :: "string \<Rightarrow> string list \<times> Indegree \<Rightarrow> string list \<times> Indegree" where
  "decr v zi = (case zi of (zero, indegree) \<Rightarrow>
     let d = lookup 0 indegree v - 1 in
     (if d = 0 then insort_insert v zero else zero, AList.update v d indegree))"

definition kahn_step :: "Kahn \<Rightarrow> Kahn" where
  "kahn_step s = (case s of (adj, zero, indegree, order) \<Rightarrow>
     let u = hd zero in
     case fold decr (lookup [] adj u) (tl zero, indegree) of
       (zero', indegree') \<Rightarrow> (subscript [] u adj, zero', indegree', order @ [u]))"

definition zi_measure :: "string list \<times> Indegree \<Rightarrow> nat" where
  "zi_measure zi = (case zi of (zero, indegree) \<Rightarrow>
     length zero + length (filter (\<lambda>kv. 0 < snd kv) indegree))"

definition kahn_measure :: "Kahn \<Rightarrow> nat" where
  "kahn_measure s = (case s of (adj, zero, indegree, order) \<Rightarrow> zi_measure (zero, indegree))"

lemma update_pos_le:
  "d \<le> lookup 0 m k \<Longrightarrow>
   length (filter (\<lambda>kv. 0 < snd kv) (AList.update k d m)) \<le> length (filter (\<lambda>kv. (0::int) < snd kv) m)"
  by (induction m) (auto simp: lookup_def)

lemma update_pos_less:
  "lookup 0 m k = 1 \<Longrightarrow>
   Suc (length (filter (\<lambda>kv. 0 < snd kv) (AList.update k 0 m))) = length (filter (\<lambda>kv. (0::int) < snd kv) m)"
  by (induction m) (auto simp: lookup_def)

lemma decr_measure: "zi_measure (decr v zi) \<le> zi_measure zi"
proof -
  obtain zero indegree where zi: "zi = (zero, indegree)" by (cases zi)
  show ?thesis
  proof (cases "lookup 0 indegree v = 1")
    case True
    have "length (insort_insert v zero) \<le> Suc (length zero)"
      by (cases "v \<in> set zero") (simp_all add: insort_insert_triv insort_insert_insort)
    with update_pos_less [OF True] True show ?thesis
      by (simp add: zi zi_measure_def decr_def)
  next
    case False
    with update_pos_le [of "lookup 0 indegree v - 1" indegree v] show ?thesis
      by (simp add: zi zi_measure_def decr_def Let_def)
  qed
qed

lemma fold_decr_measure: "zi_measure (fold decr vs zi) \<le> zi_measure zi"
proof (induction vs arbitrary: zi)
  case Nil
  show ?case by simp
next
  case (Cons v vs)
  have "zi_measure (fold decr vs (decr v zi)) \<le> zi_measure (decr v zi)"
    using Cons.IH .
  also have "\<dots> \<le> zi_measure zi"
    using decr_measure .
  finally show ?case by simp
qed

lemma kahn_step_measure:
  assumes "zero \<noteq> []"
  shows "kahn_measure (kahn_step (adj, zero, indegree, order)) < kahn_measure (adj, zero, indegree, order)"
proof -
  obtain zero' indegree' where f: "fold decr (lookup [] adj (hd zero)) (tl zero, indegree) = (zero', indegree')"
    by (cases "fold decr (lookup [] adj (hd zero)) (tl zero, indegree)")
  have "zi_measure (zero', indegree') \<le> zi_measure (tl zero, indegree)"
    using fold_decr_measure [of "lookup [] adj (hd zero)" "(tl zero, indegree)"] f by simp
  moreover have "zi_measure (tl zero, indegree) < zi_measure (zero, indegree)"
    using assms by (cases zero) (simp_all add: zi_measure_def)
  ultimately show ?thesis
    by (simp add: kahn_step_def f Let_def kahn_measure_def)
qed

function kahn :: "Kahn \<Rightarrow> Kahn" where
  "kahn (adj, zero, indegree, order) =
     (if zero = [] then (adj, zero, indegree, order)
      else kahn (kahn_step (adj, zero, indegree, order)))"
  by pat_completeness auto
termination
  by (relation "measure kahn_measure") (simp_all add: kahn_step_measure)

declare kahn.simps [simp del]

text \<open>
  \<open>printRecommendedOrder\<close> up to the end of the \<open>while\<close> loop (\<open>topoOrder\<close> is the vector
  \<open>order\<close> it has built), then the printing. The set \<open>zero\<close> is filled by a loop over the
  entries of \<open>indegree\<close>; being an ordered set, it does not depend on the order in which
  that loop meets them (\<open>initZero_effect\<close> below).
\<close>

definition initZero :: "Indegree \<Rightarrow> string list" where
  "initZero indegree = fold (\<lambda>kv zero. if snd kv = 0 then insort_insert (fst kv) zero else zero) indegree []"

definition topoOrder :: "Catalog \<Rightarrow> string list" where
  "topoOrder catalog =
     (case buildGraph catalog of (adj, indegree) \<Rightarrow>
        case kahn (adj, initZero indegree, indegree, []) of (adj', zero', indegree', order) \<Rightarrow> order)"

fun printOrder :: "Catalog \<Rightarrow> string list \<Rightarrow> nat \<Rightarrow> string \<Rightarrow> exn + string" where
  "printOrder catalog [] i out = Inr out"
| "printOrder catalog (k # ks) i out =
     (case umap_at catalog k of
        Inl e \<Rightarrow> Inl e
      | Inr c \<Rightarrow>
          printOrder catalog ks (i + 1)
            (out @ show_nat (i + 1) @ ''. '' @ number c @ '' - '' @ title c @ nl))"

definition printRecommendedOrder :: "Catalog \<Rightarrow> exn + string" where
  "printRecommendedOrder catalog =
     (if catalog = [] then Inr (''No data loaded.'' @ nl)
      else
        let order = topoOrder catalog in
        case printOrder catalog order 0 (''Recommended Course Order:'' @ nl) of
          Inl e \<Rightarrow> Inl e
        | Inr out \<Rightarrow>
            Inr (if length order \<noteq> length catalog
                 then out @ nl @ ''Warning: Circular dependency detected.'' @ nl
                 else out))"

section \<open>What the program is measured against\<close>

text \<open>A code in normal form: upper-case ASCII letters and digits only.\<close>

definition upper_alnum :: "char \<Rightarrow> bool" where
  "upper_alnum ch = (let n = (of_char ch :: nat) in
     (48 \<le> n \<and> n \<le> 57) \<or> (65 \<le> n \<and> n \<le> 90))"

text \<open>Two bytes that are equal, or the upper-case and the lower-case form of one ASCII
  letter.\<close>

definition case_eq :: "char \<Rightarrow> char \<Rightarrow> bool" where
  "case_eq a b = (let m = (of_char a :: nat); n = (of_char b :: nat) in
     a = b \<or> (65 \<le> m \<and> m \<le> 90 \<and> n = m + 32) \<or> (65 \<le> n \<and> n \<le> 90 \<and> m = n + 32))"

text \<open>
  A catalog is consistent when it has one entry for each key, and every key is the
  \<open>number\<close> of the course stored under it and a code in normal form.
\<close>

definition catalog_ok :: "Catalog \<Rightarrow> bool" where
  "catalog_ok catalog =
     (distinct (map fst catalog)
      \<and> (\<forall>kv \<in> set catalog.
            number (snd kv) = fst kv \<and> canonCode (fst kv) = fst kv
            \<and> (\<forall>ch \<in> set (fst kv). upper_alnum ch)))"

text \<open>
  \<open>edges catalog p c\<close> is the number of edges \<open>p \<rightarrow> c\<close> the catalog asks for: the number
  of times \<open>p\<close> stands in the prerequisite list of the course stored under \<open>c\<close>, when \<open>p\<close>
  is a catalog key, and none otherwise. \<open>remaining catalog done c\<close> is the remaining
  in-degree of \<open>c\<close> once the codes \<open>done\<close> are out: the number of entries of \<open>c\<close>'s
  prerequisite list that are catalog keys and not in \<open>done\<close>. \<open>ready catalog done\<close> are the
  catalog keys not in \<open>done\<close> whose remaining in-degree is zero.
\<close>

definition edges :: "Catalog \<Rightarrow> string \<Rightarrow> string \<Rightarrow> nat" where
  "edges catalog p c =
     (case map_of catalog c of
        None \<Rightarrow> 0
      | Some crs \<Rightarrow> if map_of catalog p \<noteq> None then count_list (prereqs crs) p else 0)"

definition remaining :: "Catalog \<Rightarrow> string list \<Rightarrow> string \<Rightarrow> nat" where
  "remaining catalog done c =
     (case map_of catalog c of
        None \<Rightarrow> 0
      | Some crs \<Rightarrow> length (filter (\<lambda>q. map_of catalog q \<noteq> None \<and> q \<notin> set done) (prereqs crs)))"

definition ready :: "Catalog \<Rightarrow> string list \<Rightarrow> string list" where
  "ready catalog done =
     filter (\<lambda>c. c \<notin> set done \<and> remaining catalog done c = 0) (map fst catalog)"

text \<open>A catalog whose third course lists one prerequisite twice and one that is no key.\<close>

definition dupCatalog :: Catalog where
  "dupCatalog =
     [(''CSCI100'', \<lparr>number = ''CSCI100'', title = ''Intro to CS'', prereqs = []\<rparr>),
      (''CSCI200'', \<lparr>number = ''CSCI200'', title = ''Data Structures'',
         prereqs = [''CSCI101'', ''MATH201'', ''CSCI101'']\<rparr>),
      (''CSCI101'', \<lparr>number = ''CSCI101'', title = ''Intro to Programming'',
         prereqs = [''CSCI100'']\<rparr>)]"

text \<open>
  \<open>is_next catalog done u\<close>: \<open>u\<close> is ready once \<open>done\<close> is out, and no ready code is
  smaller. \<open>trace_ok\<close>: every code of an order was the next one when it was appended.
  \<open>kahn_inv\<close> is the invariant of the \<open>while\<close> loop: \<open>adj\<close> holds the catalog's edges,
  \<open>indegree\<close> the remaining in-degrees, \<open>zero\<close> the ready codes in ascending order.
  \<open>reaches catalog p c\<close>: there is a path of one or more prerequisite edges from \<open>p\<close> to
  \<open>c\<close>; a cycle is a course that reaches itself.
\<close>

definition is_next :: "Catalog \<Rightarrow> string list \<Rightarrow> string \<Rightarrow> bool" where
  "is_next catalog done u =
     (u \<in> set (ready catalog done) \<and> (\<forall>w \<in> set (ready catalog done). u \<le> w))"

definition trace_ok :: "Catalog \<Rightarrow> string list \<Rightarrow> bool" where
  "trace_ok catalog order = (\<forall>i < length order. is_next catalog (take i order) (order ! i))"

definition kahn_inv :: "Catalog \<Rightarrow> Kahn \<Rightarrow> bool" where
  "kahn_inv catalog s = (case s of (adj, zero, indegree, order) \<Rightarrow>
     (\<forall>p c. count_list (lookup [] adj p) c = edges catalog p c)
     \<and> (\<forall>c. lookup 0 indegree c = int (remaining catalog order c))
     \<and> sorted zero \<and> distinct zero \<and> set zero = set (ready catalog order)
     \<and> trace_ok catalog order)"

definition cycCatalog :: Catalog where
  "cycCatalog =
     [(''A'', \<lparr>number = ''A'', title = ''First'', prereqs = [''B'']\<rparr>),
      (''B'', \<lparr>number = ''B'', title = ''Second'', prereqs = [''A'']\<rparr>)]"

definition tieCatalog :: Catalog where
  "tieCatalog =
     [(''B'', \<lparr>number = ''B'', title = ''Second'', prereqs = []\<rparr>),
      (''C'', \<lparr>number = ''C'', title = ''Third'', prereqs = [''B'']\<rparr>),
      (''A'', \<lparr>number = ''A'', title = ''First'', prereqs = []\<rparr>)]"

text \<open>A catalog with a cycle between \<open>A\<close> and \<open>B\<close> and two courses outside it.\<close>

definition partCatalog :: Catalog where
  "partCatalog =
     [(''X'', \<lparr>number = ''X'', title = ''Free'', prereqs = []\<rparr>),
      (''A'', \<lparr>number = ''A'', title = ''First'', prereqs = [''B'']\<rparr>),
      (''E'', \<lparr>number = ''E'', title = ''After X'', prereqs = [''X'']\<rparr>),
      (''B'', \<lparr>number = ''B'', title = ''Second'', prereqs = [''A'']\<rparr>)]"

inductive reaches :: "Catalog \<Rightarrow> string \<Rightarrow> string \<Rightarrow> bool" for catalog where
  edge: "0 < edges catalog p c \<Longrightarrow> reaches catalog p c"
| step: "reaches catalog p q \<Longrightarrow> 0 < edges catalog q c \<Longrightarrow> reaches catalog p c"

definition has_cycle :: "Catalog \<Rightarrow> bool" where
  "has_cycle catalog = (\<exists>c. reaches catalog c c)"

text \<open>
  The line printed for the code \<open>k\<close> at position \<open>j\<close> of an order, and the listing of an
  order: its lines one after the other.
\<close>

definition courseLine :: "Catalog \<Rightarrow> nat \<Rightarrow> string \<Rightarrow> string" where
  "courseLine catalog j k =
     (case map_of catalog k of
        None \<Rightarrow> []
      | Some c \<Rightarrow> show_nat (j + 1) @ ''. '' @ number c @ '' - '' @ title c @ nl)"

definition orderListing :: "Catalog \<Rightarrow> string list \<Rightarrow> string" where
  "orderListing catalog order =
     concat (map (\<lambda>j. courseLine catalog j (order ! j)) [0..<length order])"

text \<open>
  The sample file of the specification, the catalog it loads to, and a file whose one
  record has an empty code.
\<close>

definition sampleFile :: string where
  "sampleFile =
     ''CSCI100,Intro to CS'' @ nl @
     ''CSCI101,Intro to Programming,CSCI100'' @ nl @
     ''CSCI200,Data Structures,CSCI101,MATH201'' @ nl"

definition sampleCatalog :: Catalog where
  "sampleCatalog =
     [(''CSCI100'', \<lparr>number = ''CSCI100'', title = ''Intro to CS'', prereqs = []\<rparr>),
      (''CSCI101'', \<lparr>number = ''CSCI101'', title = ''Intro to Programming'',
         prereqs = [''CSCI100'']\<rparr>),
      (''CSCI200'', \<lparr>number = ''CSCI200'', title = ''Data Structures'',
         prereqs = [''CSCI101'', ''MATH201'']\<rparr>)]"

definition sampleFs :: "string \<rightharpoonup> string" where
  "sampleFs = [''courses.csv'' \<mapsto> sampleFile]"

definition badFs :: "string \<rightharpoonup> string" where
  "badFs = [''courses.csv'' \<mapsto> '',Untitled'' @ nl]"

section \<open>The normalizer\<close>

lemma of_char_char_of_small: "n < 256 \<Longrightarrow> (of_char (char_of n) :: nat) = n"
  by simp

lemma toupper_upper_alnum: "isalnum ch \<Longrightarrow> upper_alnum (toupper ch)"
  by (auto simp: isalnum_def toupper_def upper_alnum_def Let_def)

lemma upper_alnum_fixed:
  "upper_alnum ch \<Longrightarrow> isalnum ch \<and> toupper ch = ch \<and> \<not> isspace ch \<and> (of_char ch :: nat) \<noteq> 0xEF"
  by (auto simp: isalnum_def toupper_def upper_alnum_def isspace_def Let_def)

lemma canonCode_upper_alnum: "\<forall>ch \<in> set (canonCode s). upper_alnum ch"
  by (auto simp: canonCode_def toupper_upper_alnum)

lemma stripBOM_upper_alnum: "\<forall>ch \<in> set s. upper_alnum ch \<Longrightarrow> stripBOM s = s"
proof (cases s)
  case Nil
  then show ?thesis by (simp add: stripBOM_def)
next
  case (Cons a as)
  assume "\<forall>ch \<in> set s. upper_alnum ch"
  with Cons have "(of_char a :: nat) \<noteq> 0xEF" using upper_alnum_fixed by simp
  with Cons show ?thesis by (simp add: stripBOM_def)
qed

lemma dropWhile_none: "\<forall>x \<in> set xs. \<not> P x \<Longrightarrow> dropWhile P xs = xs"
  by (cases xs) simp_all

lemma trim_upper_alnum:
  assumes "\<forall>ch \<in> set s. upper_alnum ch"
  shows "trim s = s"
proof -
  from assms have ns: "\<forall>ch \<in> set s. \<not> isspace ch" using upper_alnum_fixed by blast
  then have "ltrim s = s" by (simp add: ltrim_def dropWhile_none)
  moreover from ns have "rtrim s = s" by (simp add: rtrim_def dropWhile_none)
  ultimately show ?thesis by (simp add: trim_def)
qed

lemma canonCode_fixed:
  assumes "\<forall>ch \<in> set s. upper_alnum ch"
  shows "canonCode s = s"
proof -
  from assms have "filter isalnum s = s" using upper_alnum_fixed by (simp add: filter_id_conv)
  moreover from assms have "map toupper s = s" using upper_alnum_fixed by (simp add: map_idI)
  ultimately show ?thesis
    using assms by (simp add: canonCode_def stripBOM_upper_alnum trim_upper_alnum)
qed

lemma filter_dropWhile_excl:
  "(\<And>x. P x \<Longrightarrow> \<not> Q x) \<Longrightarrow> filter Q (dropWhile P xs) = filter Q xs"
  by (induction xs) auto

lemma isspace_not_isalnum: "isspace ch \<Longrightarrow> \<not> isalnum ch"
  by (auto simp: isspace_def isalnum_def Let_def)

lemma filter_isalnum_trim: "filter isalnum (trim s) = filter isalnum s"
proof -
  have "filter isalnum (rtrim t) = filter isalnum t" for t
  proof -
    have "filter isalnum (rtrim t) = rev (filter isalnum (dropWhile isspace (rev t)))"
      by (simp add: rtrim_def rev_filter)
    also have "\<dots> = rev (filter isalnum (rev t))"
      by (simp add: filter_dropWhile_excl isspace_not_isalnum)
    finally show ?thesis by (simp add: rev_filter)
  qed
  then show ?thesis
    by (simp add: trim_def ltrim_def filter_dropWhile_excl isspace_not_isalnum)
qed

lemma filter_isalnum_stripBOM: "filter isalnum (stripBOM s) = filter isalnum s"
proof (cases "length s \<ge> 3 \<and> (of_char (s ! 0) :: nat) = 0xEF \<and> (of_char (s ! 1) :: nat) = 0xBB
         \<and> (of_char (s ! 2) :: nat) = 0xBF")
  case False
  then show ?thesis by (auto simp: stripBOM_def)
next
  case True
  then obtain a b c rest where s: "s = a # b # c # rest"
    by (cases s; cases "tl s"; cases "tl (tl s)") auto
  with True have "\<not> isalnum a" "\<not> isalnum b" "\<not> isalnum c"
    by (auto simp: isalnum_def Let_def)
  with True s show ?thesis by (simp add: stripBOM_def)
qed

lemma canonCode_closed: "canonCode s = map toupper (filter isalnum s)"
  by (simp add: canonCode_def filter_isalnum_trim filter_isalnum_stripBOM)

lemma isalnum_toupper: "isalnum (toupper ch) = isalnum ch"
  by (auto simp: isalnum_def toupper_def Let_def)

lemma toupper_toupper: "toupper (toupper ch) = toupper ch"
  by (auto simp: toupper_def Let_def)

lemma canonCode_toupper: "canonCode (map toupper s) = canonCode s"
  by (simp add: canonCode_closed filter_map comp_def isalnum_toupper toupper_toupper)

lemma canonCode_nospace: "canonCode (filter (\<lambda>c. \<not> isspace c) s) = canonCode s"
proof -
  have "filter isalnum (filter (\<lambda>c. \<not> isspace c) s) = filter isalnum s"
    by (induction s) (auto dest: isspace_not_isalnum)
  then show ?thesis by (simp add: canonCode_closed)
qed

lemma case_eq_toupper: "case_eq a b \<Longrightarrow> isalnum a = isalnum b \<and> toupper a = toupper b"
proof -
  assume c: "case_eq a b"
  have up: "char_of ((of_char x :: nat) + 32 - 32) = x" for x by simp
  from c show ?thesis
    unfolding case_eq_def Let_def isalnum_def toupper_def
    by (elim disjE conjE) (simp_all add: up)
qed

lemma canonCode_case_eq: "list_all2 case_eq s t \<Longrightarrow> canonCode s = canonCode t"
proof (induction rule: list_all2_induct)
  case Nil
  show ?case by simp
next
  case (Cons a s b t)
  with case_eq_toupper [of a b] show ?case by (simp add: canonCode_closed)
qed

text \<open>
  C8. The normalizer is idempotent, and it ignores case and white space: it is the
  upper-casing of the letters and digits of its input, so upper-casing the input or
  removing its white space changes nothing, and two inputs that differ only in the case of
  their letters have the same code; the three spellings of the spec all normalize to
  \<open>CSCI101\<close>.
\<close>

theorem canonCode_idempotent:
  "canonCode (canonCode s) = canonCode s
   \<and> canonCode s = map toupper (filter isalnum s)
   \<and> canonCode (map toupper s) = canonCode s
   \<and> canonCode (filter (\<lambda>c. \<not> isspace c) s) = canonCode s
   \<and> (list_all2 case_eq s t \<longrightarrow> canonCode s = canonCode t)
   \<and> canonCode '' csci 101 '' = ''CSCI101''
   \<and> canonCode ''CSCI101'' = ''CSCI101''
   \<and> canonCode ''csci101'' = ''CSCI101''"
proof -
  have "canonCode (canonCode s) = canonCode s"
    using canonCode_fixed [OF canonCode_upper_alnum] .
  moreover have "canonCode '' csci 101 '' = ''CSCI101''"
    by code_simp
  moreover have "canonCode ''CSCI101'' = ''CSCI101''"
    by code_simp
  moreover have "canonCode ''csci101'' = ''CSCI101''"
    by code_simp
  ultimately show ?thesis
    using canonCode_closed [of s] canonCode_toupper [of s] canonCode_nospace [of s]
      canonCode_case_eq [of s t]
    by blast
qed

theorem canonCode_idempotent_witness:
  "list_all2 case_eq ''Math201'' ''mATH201''
   \<and> canonCode ''Math201'' = canonCode ''mATH201''
   \<and> canonCode ''mATH201'' = ''MATH201''
   \<and> canonCode (filter (\<lambda>c. \<not> isspace c) '' ma th 201 '') = canonCode '' ma th 201 ''
   \<and> canonCode '' ma th 201 '' = ''MATH201''"
proof -
  have h: "list_all2 case_eq ''Math201'' ''mATH201''" by code_simp
  from canonCode_idempotent [of "''Math201''" "''mATH201''"] h
  have a: "canonCode ''Math201'' = canonCode ''mATH201''" by blast
  have b: "canonCode ''mATH201'' = ''MATH201''" by code_simp
  from canonCode_idempotent [of "'' ma th 201 ''"]
  have c: "canonCode (filter (\<lambda>c. \<not> isspace c) '' ma th 201 '') = canonCode '' ma th 201 ''"
    by blast
  have d: "canonCode '' ma th 201 '' = ''MATH201''" by code_simp
  from h a b c d show ?thesis by blast
qed

section \<open>The loader\<close>

text \<open>
  C5. When the file cannot be opened, both versions of \<open>loadCourses\<close> return \<open>false\<close> and
  leave the catalog as it was; when it can, they return \<open>true\<close> and the catalog they leave
  does not depend on the one they were given: it is cleared and rebuilt.
\<close>

theorem loadCourses_unopened_keeps_catalog:
  "(fs filename = None \<longrightarrow>
      loadCourses fs filename catalog = (False, catalog)
      \<and> loadCourses_orig fs filename catalog = (False, catalog, []))
   \<and> (fs filename \<noteq> None \<longrightarrow>
      fst (loadCourses fs filename catalog)
      \<and> snd (loadCourses fs filename catalog) = snd (loadCourses fs filename [])
      \<and> fst (loadCourses_orig fs filename catalog)
      \<and> snd (loadCourses_orig fs filename catalog) = snd (loadCourses_orig fs filename []))"
  by (auto simp: loadCourses_def loadCourses_orig_def split: option.splits prod.splits)

theorem loadCourses_unopened_keeps_catalog_witness:
  "sampleFs ''missing.csv'' = None
   \<and> loadCourses sampleFs ''missing.csv'' dupCatalog = (False, dupCatalog)
   \<and> loadCourses_orig sampleFs ''missing.csv'' dupCatalog = (False, dupCatalog, [])
   \<and> sampleFs ''courses.csv'' \<noteq> None
   \<and> loadCourses sampleFs ''courses.csv'' dupCatalog = (True, sampleCatalog)"
proof -
  have n: "sampleFs ''missing.csv'' = None" by (simp add: sampleFs_def)
  have o: "sampleFs ''courses.csv'' \<noteq> None" by (simp add: sampleFs_def)
  have l: "loadCourses sampleFs ''courses.csv'' dupCatalog = (True, sampleCatalog)" by code_simp
  from loadCourses_unopened_keeps_catalog [of sampleFs "''missing.csv''" dupCatalog] n
  have "loadCourses sampleFs ''missing.csv'' dupCatalog = (False, dupCatalog)
      \<and> loadCourses_orig sampleFs ''missing.csv'' dupCatalog = (False, dupCatalog, [])"
    by blast
  with n o l show ?thesis by blast
qed

lemma set_update_subset: "set (AList.update k v al) \<subseteq> insert (k, v) (set al)"
  by (induction al) auto

lemma catalog_ok_update:
  assumes "catalog_ok catalog" and "number c = canonCode x"
  shows "catalog_ok (AList.update (number c) c catalog)"
proof -
  have "canonCode (canonCode x) = canonCode x"
    using canonCode_fixed [OF canonCode_upper_alnum] .
  with assms canonCode_upper_alnum [of x] set_update_subset [of "number c" c catalog]
  show ?thesis
    unfolding catalog_ok_def by (auto simp: distinct_update)
qed

lemma number_fold_addPrereq: "number (fold addPrereq xs c) = number c"
  by (induction xs arbitrary: c) (simp_all add: addPrereq_def Let_def)

lemma loadLine_ok:
  assumes "catalog_ok catalog"
  shows "catalog_ok (loadLine line catalog)"
proof -
  let ?f = "splitCSV line"
  let ?c = "fold addPrereq (drop 2 ?f) (newCourse (?f ! 0) (?f ! 1))"
  have "number ?c = canonCode (?f ! 0)"
    by (simp add: number_fold_addPrereq newCourse_def)
  from catalog_ok_update [OF assms this]
  have "catalog_ok (AList.update (number ?c) ?c catalog)" .
  with assms show ?thesis by (simp add: loadLine_def Let_def)
qed

lemma fold_loadLine_ok: "catalog_ok catalog \<Longrightarrow> catalog_ok (fold loadLine lines catalog)"
  by (induction lines arbitrary: catalog) (simp_all add: loadLine_ok)

lemma loadLine_orig_ok:
  assumes "catalog_ok (fst (snd st))"
  shows "catalog_ok (fst (snd (loadLine_orig line st)))"
proof -
  obtain n catalog cerr where st: "st = (n, catalog, cerr)" by (cases st)
  let ?f = "splitCSV line"
  let ?c = "\<lparr>number = canonCode (?f ! 0), title = ?f ! 1,
             prereqs = fold pushPrereq (drop 2 ?f) []\<rparr>"
  from assms st have ok: "catalog_ok catalog" by simp
  have "number ?c = canonCode (?f ! 0)" by simp
  from catalog_ok_update [OF ok this]
  have "catalog_ok (AList.update (number ?c) ?c catalog)" .
  with ok show ?thesis by (simp add: loadLine_orig_def Let_def st)
qed

lemma fold_loadLine_orig_ok:
  "catalog_ok (fst (snd st)) \<Longrightarrow> catalog_ok (fst (snd (fold loadLine_orig lines st)))"
  by (induction lines arbitrary: st) (simp_all add: loadLine_orig_ok)

lemma catalog_ok_Nil: "catalog_ok []"
  by (simp add: catalog_ok_def)

lemma load_ok:
  assumes "catalog_ok catalog"
  shows "catalog_ok (snd (loadCourses fs filename catalog))"
    and "catalog_ok (fst (snd (loadCourses_orig fs filename catalog)))"
proof -
  show "catalog_ok (snd (loadCourses fs filename catalog))"
    using assms fold_loadLine_ok [OF catalog_ok_Nil]
    by (simp add: loadCourses_def split: option.splits)
  show "catalog_ok (fst (snd (loadCourses_orig fs filename catalog)))"
  proof (cases "fs filename")
    case None
    with assms show ?thesis by (simp add: loadCourses_orig_def)
  next
    case (Some content)
    obtain n catalog' cerr
      where f: "fold loadLine_orig (getlines CHR 0x0A [] content) (0, [], []) = (n, catalog', cerr)"
      by (cases "fold loadLine_orig (getlines CHR 0x0A [] content) (0, [], [])")
    from fold_loadLine_orig_ok [of "(0, [], [])" "getlines CHR 0x0A [] content"] catalog_ok_Nil f
    have "catalog_ok catalog'" by simp
    with Some f show ?thesis by (simp add: loadCourses_orig_def)
  qed
qed

text \<open>
  C9. After a load, the catalog is consistent when it was before (the program starts
  with the empty catalog): every key is the \<open>number\<close> of the course stored under it and a
  fixed point of the normalizer, made of upper-case letters and digits; so looking up any
  query that normalizes to the key finds that course, and the detail query of either
  artifact prints that course for it: its code and title, then its prerequisites.
\<close>

theorem load_key_consistency:
  assumes "catalog_ok catalog"
    and "catalog' = snd (loadCourses fs filename catalog)
         \<or> catalog' = fst (snd (loadCourses_orig fs filename catalog))"
    and "(k, c) \<in> set catalog'"
  shows "number c = k \<and> canonCode k = k \<and> (\<forall>ch \<in> set k. upper_alnum ch)
       \<and> (\<forall>raw. canonCode raw = k \<longrightarrow>
            umap_find catalog' (canonCode raw) = Some c
            \<and> printSingleCourse catalog' raw =
                k @ '', '' @ title c @ nl @
                (if prereqs c = [] then ''Prerequisites: None'' @ nl
                 else ''Prerequisites: '' @ join '', '' (prereqs c) @ nl)
            \<and> printSingleCourse_orig catalog' raw =
                k @ '', '' @ title c @ nl @
                (if prereqs c = [] then ''Prerequisites: None'' @ nl
                 else ''Prerequisites: '' @
                   join ''; '' (map (\<lambda>p. case map_of catalog' p of
                                        Some pc \<Rightarrow> number pc @ '', '' @ title pc
                                      | None \<Rightarrow> p @ '' (title unavailable)'') (prereqs c)) @ nl))"
proof -
  from assms(1,2) load_ok [OF assms(1)] have ok: "catalog_ok catalog'" by auto
  with assms(3) have m: "map_of catalog' k = Some c" by (simp add: catalog_ok_def)
  from ok assms(3) have n: "number c = k" and f: "canonCode k = k"
    and u: "\<forall>ch \<in> set k. upper_alnum ch"
    by (auto simp: catalog_ok_def)
  from assms(3) have ne: "catalog' \<noteq> []" by auto
  have pt: "prereqText catalog' = (\<lambda>p. case map_of catalog' p of
                                        Some pc \<Rightarrow> number pc @ '', '' @ title pc
                                      | None \<Rightarrow> p @ '' (title unavailable)'')"
    by (rule ext) (simp add: prereqText_def umap_find_def)
  have "umap_find catalog' (canonCode raw) = Some c
      \<and> printSingleCourse catalog' raw =
          k @ '', '' @ title c @ nl @
          (if prereqs c = [] then ''Prerequisites: None'' @ nl
           else ''Prerequisites: '' @ join '', '' (prereqs c) @ nl)
      \<and> printSingleCourse_orig catalog' raw =
          k @ '', '' @ title c @ nl @
          (if prereqs c = [] then ''Prerequisites: None'' @ nl
           else ''Prerequisites: '' @
             join ''; '' (map (\<lambda>p. case map_of catalog' p of
                                  Some pc \<Rightarrow> number pc @ '', '' @ title pc
                                | None \<Rightarrow> p @ '' (title unavailable)'') (prereqs c)) @ nl)"
    if r: "canonCode raw = k" for raw
    using m n ne r
    by (simp add: printSingleCourse_def printSingleCourse_orig_def umap_find_def Let_def pt)
  with n f u show ?thesis by blast
qed

theorem load_key_consistency_witness:
  "catalog_ok []
   \<and> sampleCatalog = snd (loadCourses sampleFs ''courses.csv'' [])
   \<and> (''CSCI200'', \<lparr>number = ''CSCI200'', title = ''Data Structures'',
         prereqs = [''CSCI101'', ''MATH201'']\<rparr>) \<in> set sampleCatalog
   \<and> canonCode '' csci-200'' = ''CSCI200''
   \<and> umap_find sampleCatalog (canonCode '' csci-200'') =
        Some \<lparr>number = ''CSCI200'', title = ''Data Structures'',
              prereqs = [''CSCI101'', ''MATH201'']\<rparr>
   \<and> printSingleCourse sampleCatalog '' csci-200'' =
        ''CSCI200, Data Structures'' @ nl @ ''Prerequisites: CSCI101, MATH201'' @ nl
   \<and> printSingleCourse_orig sampleCatalog '' csci-200'' =
        ''CSCI200, Data Structures'' @ nl
        @ ''Prerequisites: CSCI101, Intro to Programming; MATH201 (title unavailable)'' @ nl"
proof -
  let ?c = "\<lparr>number = ''CSCI200'', title = ''Data Structures'',
         prereqs = [''CSCI101'', ''MATH201'']\<rparr>"
  have e: "catalog_ok []" by (simp add: catalog_ok_def)
  have l: "sampleCatalog = snd (loadCourses sampleFs ''courses.csv'' [])" by code_simp
  have m: "(''CSCI200'', ?c) \<in> set sampleCatalog" by (simp add: sampleCatalog_def)
  have q: "canonCode '' csci-200'' = ''CSCI200''" by code_simp
  note t = load_key_consistency [OF e disjI1 [OF l] m]
  from t q have f: "umap_find sampleCatalog (canonCode '' csci-200'') = Some ?c" by blast
  from t q have "printSingleCourse sampleCatalog '' csci-200'' =
      ''CSCI200'' @ '', '' @ title ?c @ nl @
                (if prereqs ?c = [] then ''Prerequisites: None'' @ nl
                 else ''Prerequisites: '' @ join '', '' (prereqs ?c) @ nl)" by blast
  then have p: "printSingleCourse sampleCatalog '' csci-200'' =
        ''CSCI200, Data Structures'' @ nl @ ''Prerequisites: CSCI101, MATH201'' @ nl"
    by simp
  have p': "printSingleCourse_orig sampleCatalog '' csci-200'' =
        ''CSCI200, Data Structures'' @ nl
        @ ''Prerequisites: CSCI101, Intro to Programming; MATH201 (title unavailable)'' @ nl"
    by code_simp
  from e l m q f p p' show ?thesis by blast
qed

lemma loadLine_orig_nonempty_keys:
  "[] \<notin> fst ` set (fst (snd st)) \<Longrightarrow> [] \<notin> fst ` set (fst (snd (loadLine_orig line st)))"
  unfolding loadLine_orig_def Let_def
  by (cases st) (auto simp: dom_update)

lemma fold_loadLine_orig_nonempty_keys:
  "[] \<notin> fst ` set (fst (snd st)) \<Longrightarrow>
   [] \<notin> fst ` set (fst (snd (fold loadLine_orig lines st)))"
  by (induction lines arbitrary: st) (simp_all add: loadLine_orig_nonempty_keys)

lemma loadCourses_orig_nonempty_keys:
  assumes "loadCourses_orig fs filename catalog = (True, catalog', cerr)"
  shows "[] \<notin> fst ` set catalog'"
proof (cases "fs filename")
  case None
  with assms show ?thesis by (simp add: loadCourses_orig_def)
next
  case (Some content)
  obtain n cat cerr'
    where f: "fold loadLine_orig (getlines CHR 0x0A [] content) (0, [], []) = (n, cat, cerr')"
    by (cases "fold loadLine_orig (getlines CHR 0x0A [] content) (0, [], [])")
  from fold_loadLine_orig_nonempty_keys [of "(0, [], [])" "getlines CHR 0x0A [] content"] f
  have "[] \<notin> fst ` set cat" by simp
  with Some f assms show ?thesis by (simp add: loadCourses_orig_def)
qed

text \<open>
  C6. A record whose first field normalizes to the empty code is to be skipped with a
  warning and to leave no entry. The original artifact does so (the two lemmas above, and
  the second equation below); the enhanced artifact has lost the test: from a file whose
  one record is \<open>,Untitled\<close> it stores a course under the empty code and warns of nothing.
\<close>

theorem loadCourses_stores_empty_code:
  "loadCourses badFs ''courses.csv'' [] =
     (True, [([], \<lparr>number = [], title = ''Untitled'', prereqs = []\<rparr>)])
   \<and> loadCourses_orig badFs ''courses.csv'' [] =
     (True, [], ''Warning line 1: empty course code after normalization; skipping.'' @ nl)"
  by code_simp

section \<open>Queries on the empty catalog\<close>

text \<open>
  C7. On the empty catalog the listing and the recommended order print the empty-catalog
  message, and so does the detail query of the original artifact; the detail query of the
  enhanced artifact has no such test and answers that the course was not found.
\<close>

theorem printSingleCourse_empty_catalog:
  "printSingleCourse [] rawInput = ''Course not found.'' @ nl
   \<and> printCourseList [] = Inr (''No data loaded.'' @ nl)
   \<and> printRecommendedOrder [] = Inr (''No data loaded.'' @ nl)
   \<and> printSingleCourse_orig [] rawInput = ''No data loaded. Please load the data structure first.'' @ nl
   \<and> printCourseList_orig [] = Inr (''No data loaded. Please load the data structure first.'' @ nl)"
  by (simp add: printSingleCourse_def printCourseList_def printRecommendedOrder_def
      printSingleCourse_orig_def printCourseList_orig_def umap_find_def)

section \<open>The graph builder\<close>

lemma lookup_update: "lookup d (AList.update k v m) k' = (if k' = k then v else lookup d m k')"
  by (simp add: lookup_def update_conv')

lemma lookup_subscript: "lookup d (subscript d k m) k' = lookup d m k'"
  by (auto simp: lookup_def subscript_def split: option.splits if_splits)

lemma keys_update: "k \<in> fst ` set m \<Longrightarrow> map fst (AList.update k v m) = map fst m"
  by (simp add: update_keys)

lemma update_absent: "k \<notin> fst ` set m \<Longrightarrow> AList.update k v m = m @ [(k, v)]"
  by (induction m) auto

lemma subscript_absent: "k \<notin> fst ` set m \<Longrightarrow> subscript d k m = m @ [(k, d)]"
  using map_of_eq_None_iff [of m k] by (simp add: subscript_def)

lemma keys_subscript: "k \<in> fst ` set m \<Longrightarrow> subscript d k m = m"
  using map_of_eq_None_iff [of m k] by (auto simp: subscript_def split: option.splits)

lemma fold_initNode:
  "distinct (map fst adj @ map fst xs) \<Longrightarrow> map fst ind = map fst adj \<Longrightarrow>
   fold initNode xs (adj, ind) =
     (adj @ map (\<lambda>kv. (fst kv, [])) xs, ind @ map (\<lambda>kv. (fst kv, 0)) xs)"
proof (induction xs arbitrary: adj ind)
  case Nil
  show ?case by simp
next
  case (Cons x xs)
  from Cons.prems have a: "fst x \<notin> fst ` set adj" by auto
  with Cons.prems have b: "fst x \<notin> fst ` set ind"
    by (metis list.set_map)
  have "fold initNode (x # xs) (adj, ind) = fold initNode xs (adj @ [(fst x, [])], ind @ [(fst x, 0)])"
    by (simp add: initNode_def subscript_absent [OF a] update_absent [OF b])
  also have "\<dots> = ((adj @ [(fst x, [])]) @ map (\<lambda>kv. (fst kv, [])) xs, (ind @ [(fst x, 0)]) @ map (\<lambda>kv. (fst kv, 0)) xs)"
    using Cons.prems by (intro Cons.IH) auto
  finally show ?case by simp
qed

lemma count_filter_eq:
  "length (filter (\<lambda>q. q = p \<and> A q) ps) = (if A p then count_list ps p else 0)"
  by (induction ps) auto

lemma addEdge_succ:
  "lookup [] (fst (addEdge cat k p g)) q =
     lookup [] (fst g) q @ (if q = p \<and> map_of cat p \<noteq> None then [k] else [])"
  by (cases g) (simp add: addEdge_def lookup_update umap_find_def)

lemma addEdge_deg:
  "lookup 0 (snd (addEdge cat k p g)) v =
     lookup 0 (snd g) v + (if v = k \<and> map_of cat p \<noteq> None then 1 else 0)"
  by (cases g) (simp add: addEdge_def lookup_update umap_find_def)

lemma addEdge_keys:
  assumes "fst ` set cat \<subseteq> fst ` set (fst g)" and "k \<in> fst ` set (snd g)"
  shows "map fst (fst (addEdge cat k p g)) = map fst (fst g)
       \<and> map fst (snd (addEdge cat k p g)) = map fst (snd g)"
proof (cases "map_of cat p")
  case None
  then show ?thesis by (cases g) (simp add: addEdge_def umap_find_def)
next
  case (Some c)
  then have "p \<in> fst ` set cat" by (metis map_of_eq_None_iff option.distinct(1))
  with assms(1) have "p \<in> fst ` set (fst g)" by blast
  with assms(2) Some show ?thesis
    by (cases g) (simp add: addEdge_def umap_find_def keys_update)
qed

lemma fold_addEdge_succ:
  "lookup [] (fst (fold (addEdge cat k) ps g)) q =
     lookup [] (fst g) q @ replicate (length (filter (\<lambda>p. p = q \<and> map_of cat p \<noteq> None) ps)) k"
proof (induction ps arbitrary: g)
  case Nil
  show ?case by simp
next
  case (Cons p ps)
  show ?case
    by (auto simp add: Cons.IH addEdge_succ replicate_app_Cons_same)
qed

lemma fold_addEdge_deg:
  "lookup 0 (snd (fold (addEdge cat k) ps g)) v =
     lookup 0 (snd g) v + (if v = k then int (length (filter (\<lambda>p. map_of cat p \<noteq> None) ps)) else 0)"
proof (induction ps arbitrary: g)
  case Nil
  show ?case by simp
next
  case (Cons p ps)
  show ?case
    by (simp add: Cons.IH addEdge_deg)
qed

lemma fold_addEdge_keys:
  assumes "fst ` set cat \<subseteq> fst ` set (fst g)" and "k \<in> fst ` set (snd g)"
  shows "map fst (fst (fold (addEdge cat k) ps g)) = map fst (fst g)
       \<and> map fst (snd (fold (addEdge cat k) ps g)) = map fst (snd g)"
  using assms
proof (induction ps arbitrary: g)
  case Nil
  show ?case by simp
next
  case (Cons p ps)
  note ks = addEdge_keys [OF Cons.prems, of p]
  from ks Cons.prems have "fst ` set cat \<subseteq> fst ` set (fst (addEdge cat k p g))"
    and "k \<in> fst ` set (snd (addEdge cat k p g))"
    by (metis list.set_map)+
  from Cons.IH [OF this] ks show ?case by simp
qed

lemma addEdges_succ:
  "lookup [] (fst (addEdges cat x g)) q =
     lookup [] (fst g) q @
     replicate (length (filter (\<lambda>p. p = q \<and> map_of cat p \<noteq> None) (prereqs (snd x)))) (fst x)"
  by (simp add: addEdges_def fold_addEdge_succ)

lemma addEdges_deg:
  "lookup 0 (snd (addEdges cat x g)) v =
     lookup 0 (snd g) v +
     (if fst x = v then int (length (filter (\<lambda>p. map_of cat p \<noteq> None) (prereqs (snd x)))) else 0)"
  by (auto simp add: addEdges_def fold_addEdge_deg)

lemma fold_addEdges_succ:
  "lookup [] (fst (fold (addEdges cat) xs g)) q =
     lookup [] (fst g) q @
     concat (map (\<lambda>kv. replicate
        (length (filter (\<lambda>p. p = q \<and> map_of cat p \<noteq> None) (prereqs (snd kv)))) (fst kv)) xs)"
proof (induction xs arbitrary: g)
  case Nil
  show ?case by simp
next
  case (Cons x xs)
  show ?case
    by (simp add: Cons.IH addEdges_succ)
qed

lemma fold_addEdges_deg:
  "lookup 0 (snd (fold (addEdges cat) xs g)) v =
     lookup 0 (snd g) v +
     sum_list (map (\<lambda>kv. if fst kv = v
        then int (length (filter (\<lambda>p. map_of cat p \<noteq> None) (prereqs (snd kv)))) else 0) xs)"
proof (induction xs arbitrary: g)
  case Nil
  show ?case by simp
next
  case (Cons x xs)
  show ?case
    by (simp add: Cons.IH addEdges_deg)
qed

lemma fold_addEdges_keys:
  assumes "fst ` set cat \<subseteq> fst ` set (fst g)" and "fst ` set xs \<subseteq> fst ` set (snd g)"
  shows "map fst (fst (fold (addEdges cat) xs g)) = map fst (fst g)
       \<and> map fst (snd (fold (addEdges cat) xs g)) = map fst (snd g)"
  using assms
proof (induction xs arbitrary: g)
  case Nil
  show ?case by simp
next
  case (Cons x xs)
  from Cons.prems have k: "fst x \<in> fst ` set (snd g)" by simp
  note ks = fold_addEdge_keys [OF Cons.prems(1) k, of "prereqs (snd x)"]
  from ks Cons.prems have "fst ` set cat \<subseteq> fst ` set (fst (addEdges cat x g))"
    and "fst ` set xs \<subseteq> fst ` set (snd (addEdges cat x g))"
    unfolding addEdges_def by (metis list.set_map, metis list.set_map set_subset_Cons image_mono subset_trans)
  from Cons.IH [OF this] ks show ?case by (simp add: addEdges_def)
qed

lemma sum_list_keyed:
  "distinct (map fst xs) \<Longrightarrow>
   sum_list (map (\<lambda>kv. if fst kv = v then f (snd kv) else 0) xs) =
     (case map_of xs v of None \<Rightarrow> (0::int) | Some c \<Rightarrow> f c)"
proof (induction xs)
  case Nil
  show ?case by simp
next
  case (Cons x xs)
  show ?case
  proof (cases "fst x = v")
    case True
    with Cons.prems have "v \<notin> fst ` set xs" by auto
    then have "sum_list (map (\<lambda>kv. if fst kv = v then f (snd kv) else 0) xs) = 0"
      by (induction xs) auto
    with True show ?thesis by (cases x) simp
  next
    case False
    with Cons show ?thesis by (cases x) simp
  qed
qed

lemma count_list_replicate: "count_list (replicate n x) y = (if x = y then n else 0)"
  by (induction n) auto

lemma count_concat_replicate:
  "distinct (map fst xs) \<Longrightarrow>
   count_list (concat (map (\<lambda>kv. replicate (f (snd kv)) (fst kv)) xs)) v =
     (case map_of xs v of None \<Rightarrow> 0 | Some c \<Rightarrow> f c)"
proof (induction xs)
  case Nil
  show ?case by simp
next
  case (Cons x xs)
  show ?case
  proof (cases "fst x = v")
    case True
    with Cons.prems have "v \<notin> fst ` set xs" by auto
    then have "count_list (concat (map (\<lambda>kv. replicate (f (snd kv)) (fst kv)) xs)) v = 0"
      by (induction xs) auto
    with True show ?thesis by (cases x) (simp add: count_list_append count_list_replicate)
  next
    case False
    with Cons show ?thesis by (cases x) (simp add: count_list_append count_list_replicate)
  qed
qed

lemma lookup_const: "lookup d (map (\<lambda>kv. (fst kv, d)) xs) q = d"
  by (induction xs) (auto simp: lookup_def)

lemma buildGraph_facts:
  assumes d: "distinct (map fst cat)" and b: "buildGraph cat = (adj, ind)"
  shows "map fst adj = map fst cat" and "map fst ind = map fst cat"
    and "count_list (lookup [] adj q) v = edges cat q v"
    and "lookup 0 ind v = int (remaining cat [] v)"
proof -
  define g0 where "g0 = (map (\<lambda>kv. (fst kv, [] :: string list)) cat, map (\<lambda>kv. (fst kv, 0 :: int)) cat)"
  have i: "fold initNode cat ([], []) = g0"
    unfolding g0_def using fold_initNode [of "[]" cat "[]"] d by simp
  have k0: "map fst (fst g0) = map fst cat" "map fst (snd g0) = map fst cat"
    by (simp_all add: g0_def comp_def)
  have g: "(adj, ind) = fold (addEdges cat) cat g0"
    using b i by (simp add: buildGraph_def)
  have ks: "map fst (fst (fold (addEdges cat) cat g0)) = map fst (fst g0)
       \<and> map fst (snd (fold (addEdges cat) cat g0)) = map fst (snd g0)"
    by (rule fold_addEdges_keys) (metis k0 list.set_map subset_refl)+
  from ks k0 g show "map fst adj = map fst cat" by (metis fst_conv)
  from ks k0 g show "map fst ind = map fst cat" by (metis snd_conv)
  have "lookup [] adj q = lookup [] (fst (fold (addEdges cat) cat g0)) q"
    using g by (metis fst_conv)
  also have "\<dots> = concat (map (\<lambda>kv. replicate
        (length (filter (\<lambda>p. p = q \<and> map_of cat p \<noteq> None) (prereqs (snd kv)))) (fst kv)) cat)"
    by (simp add: fold_addEdges_succ g0_def lookup_const)
  finally show "count_list (lookup [] adj q) v = edges cat q v"
    using count_concat_replicate [OF d,
        of "\<lambda>c. length (filter (\<lambda>p. p = q \<and> map_of cat p \<noteq> None) (prereqs c))" v]
    by (simp add: edges_def count_filter_eq split: option.splits)
  have "lookup 0 ind v = lookup 0 (snd (fold (addEdges cat) cat g0)) v"
    using g by (metis snd_conv)
  also have "\<dots> = sum_list (map (\<lambda>kv. if fst kv = v
        then int (length (filter (\<lambda>p. map_of cat p \<noteq> None) (prereqs (snd kv)))) else 0) cat)"
    by (simp add: fold_addEdges_deg g0_def lookup_const)
  finally show "lookup 0 ind v = int (remaining cat [] v)"
    using sum_list_keyed [OF d,
        of v "\<lambda>c. int (length (filter (\<lambda>p. map_of cat p \<noteq> None) (prereqs c)))"]
    by (simp add: remaining_def split: option.splits)
qed

text \<open>
  C4. For a catalog (one entry for each key), the adjacency map and the in-degree map
  have the catalog's keys as their keys, one entry each; an edge \<open>p \<rightarrow> c\<close> is \<open>c\<close> appended
  to the successor list of \<open>p\<close> and one added to the in-degree of \<open>c\<close>: the successor list
  of \<open>p\<close> holds \<open>c\<close> once for every occurrence of \<open>p\<close> in \<open>c\<close>'s prerequisite list when
  \<open>p\<close> is a catalog key, duplicates included, and the in-degree of \<open>c\<close> counts the entries
  of its prerequisite list that are catalog keys; a prerequisite that is no key adds
  nothing.
\<close>

theorem buildGraph_edges:
  assumes "distinct (map fst catalog)" and "buildGraph catalog = (adj, indegree)"
  shows "fst ` set adj = fst ` set catalog \<and> distinct (map fst adj)
       \<and> fst ` set indegree = fst ` set catalog \<and> distinct (map fst indegree)
       \<and> (\<forall>p c. count_list (lookup [] adj p) c = edges catalog p c)
       \<and> (\<forall>c. lookup 0 indegree c = int (remaining catalog [] c))"
proof -
  note f = buildGraph_facts [OF assms]
  have "fst ` set adj = fst ` set catalog" "fst ` set indegree = fst ` set catalog"
    using f(1,2) by (metis list.set_map)+
  moreover have "distinct (map fst adj)" "distinct (map fst indegree)"
    using f(1,2) assms(1) by simp_all
  ultimately show ?thesis using f(3,4) by simp
qed

theorem buildGraph_edges_witness:
  "distinct (map fst dupCatalog)
   \<and> buildGraph dupCatalog =
       ([(''CSCI100'', [''CSCI101'']), (''CSCI200'', []), (''CSCI101'', [''CSCI200'', ''CSCI200''])],
        [(''CSCI100'', 0), (''CSCI200'', 2), (''CSCI101'', 1)])
   \<and> edges dupCatalog ''CSCI101'' ''CSCI200'' = 2
   \<and> edges dupCatalog ''MATH201'' ''CSCI200'' = 0
   \<and> int (remaining dupCatalog [] ''CSCI200'') = 2"
proof -
  let ?adj = "[(''CSCI100'', [''CSCI101'']), (''CSCI200'', []), (''CSCI101'', [''CSCI200'', ''CSCI200''])]"
  let ?ind = "[(''CSCI100'', 0::int), (''CSCI200'', 2), (''CSCI101'', 1)]"
  have d: "distinct (map fst dupCatalog)" by code_simp
  have b: "buildGraph dupCatalog = (?adj, ?ind)" by code_simp
  note t = buildGraph_edges [OF d b]
  from t have "count_list (lookup [] ?adj ''CSCI101'') ''CSCI200'' = edges dupCatalog ''CSCI101'' ''CSCI200''"
    by blast
  moreover have "count_list (lookup [] ?adj ''CSCI101'') ''CSCI200'' = 2" by code_simp
  ultimately have e1: "edges dupCatalog ''CSCI101'' ''CSCI200'' = 2" by (rule trans [OF sym])
  from t have "count_list (lookup [] ?adj ''MATH201'') ''CSCI200'' = edges dupCatalog ''MATH201'' ''CSCI200''"
    by blast
  moreover have "count_list (lookup [] ?adj ''MATH201'') ''CSCI200'' = 0" by code_simp
  ultimately have e2: "edges dupCatalog ''MATH201'' ''CSCI200'' = 0" by (rule trans [OF sym])
  from t have "lookup 0 ?ind ''CSCI200'' = int (remaining dupCatalog [] ''CSCI200'')"
    by blast
  moreover have "lookup 0 ?ind ''CSCI200'' = 2" by code_simp
  ultimately have e3: "int (remaining dupCatalog [] ''CSCI200'') = 2" by (rule trans [OF sym])
  from d b e1 e2 e3 show ?thesis by blast
qed

text \<open>
  The edge is not stored the other way round: the successor list of \<open>c\<close> does not receive
  \<open>p\<close>. In \<open>dupCatalog\<close> the key \<open>CSCI101\<close> stands twice in the prerequisite list of
  \<open>CSCI200\<close>, twice does \<open>CSCI200\<close> stand in the successor list of \<open>CSCI101\<close>, and
  \<open>CSCI101\<close> not once in the successor list of \<open>CSCI200\<close>.
\<close>

theorem buildGraph_edges_not_reversed:
  "edges dupCatalog ''CSCI101'' ''CSCI200'' = 2
   \<and> count_list (lookup [] (fst (buildGraph dupCatalog)) ''CSCI200'') ''CSCI101'' = 0
   \<and> count_list (lookup [] (fst (buildGraph dupCatalog)) ''CSCI101'') ''CSCI200'' = 2"
  by code_simp

section \<open>The topological sorter\<close>

lemma decr_effect:
  assumes "sorted zero" and "distinct zero" and "decr v (zero, ind) = (zero', ind')"
  shows "sorted zero' \<and> distinct zero'
       \<and> set zero' = set zero \<union> (if lookup 0 ind v = 1 then {v} else {})
       \<and> (\<forall>w. lookup 0 ind' w = lookup 0 ind w - (if w = v then 1 else 0))"
  using assms
  by (auto simp: decr_def Let_def lookup_update sorted_insort_insert distinct_insort_insert
      set_insort_insert split: if_splits)

lemma count_pos_mem: "0 < count_list xs x \<longleftrightarrow> x \<in> set xs"
  by (induction xs) auto

lemma fold_decr_effect:
  assumes "sorted zero" and "distinct zero" and "fold decr vs (zero, ind) = (zero', ind')"
  shows "sorted zero' \<and> distinct zero'
       \<and> set zero' = set zero \<union>
           {v \<in> set vs. 1 \<le> lookup 0 ind v \<and> lookup 0 ind v \<le> int (count_list vs v)}
       \<and> (\<forall>w. lookup 0 ind' w = lookup 0 ind w - int (count_list vs w))"
  using assms
proof (induction vs arbitrary: zero ind)
  case Nil
  then show ?case by simp
next
  case (Cons v vs)
  obtain z1 i1 where d: "decr v (zero, ind) = (z1, i1)" by (cases "decr v (zero, ind)")
  note e = decr_effect [OF Cons.prems(1,2) d]
  from Cons.prems(3) d have f: "fold decr vs (z1, i1) = (zero', ind')" by simp
  from e have s1: "sorted z1" and d1: "distinct z1" by simp_all
  note ih = Cons.IH [OF s1 d1 f]
  from e have i1: "\<And>w. lookup 0 i1 w = lookup 0 ind w - (if w = v then 1 else 0)" by simp
  from e have z1: "set z1 = set zero \<union> (if lookup 0 ind v = 1 then {v} else {})" by simp
  have "set zero' = set zero \<union>
      {w \<in> set (v # vs). 1 \<le> lookup 0 ind w \<and> lookup 0 ind w \<le> int (count_list (v # vs) w)}"
  proof (rule set_eqI)
    fix w
    have c: "count_list vs w = 0 \<longleftrightarrow> w \<notin> set vs" using count_pos_mem [of vs w] by auto
    show "w \<in> set zero' \<longleftrightarrow> w \<in> set zero \<union>
      {w \<in> set (v # vs). 1 \<le> lookup 0 ind w \<and> lookup 0 ind w \<le> int (count_list (v # vs) w)}"
    proof (cases "w = v")
      case True
      with ih z1 i1 [of w] c show ?thesis by (auto split: if_splits)
    next
      case False
      with ih z1 i1 [of w] c show ?thesis by (auto split: if_splits)
    qed
  qed
  moreover have "\<forall>w. lookup 0 ind' w = lookup 0 ind w - int (count_list (v # vs) w)"
    using ih i1 by simp
  ultimately show ?case using ih by simp
qed

lemma filter_split_count:
  "u \<notin> set done \<Longrightarrow>
   length (filter (\<lambda>q. A q \<and> q \<notin> set done) ps) =
     (if A u then count_list ps u else 0) + length (filter (\<lambda>q. A q \<and> q \<notin> set (done @ [u])) ps)"
  by (induction ps) auto

lemma remaining_step:
  assumes "u \<notin> set done"
  shows "remaining catalog done c = edges catalog u c + remaining catalog (done @ [u]) c"
proof (cases "map_of catalog c")
  case None
  then show ?thesis by (simp add: remaining_def edges_def)
next
  case (Some crs)
  with filter_split_count [OF assms, of "\<lambda>q. map_of catalog q \<noteq> None" "prereqs crs"]
  show ?thesis unfolding remaining_def edges_def by simp
qed

lemma remaining_take: "remaining catalog order c \<le> remaining catalog (take i order) c"
proof -
  have "\<And>ps. length (filter (\<lambda>q. map_of catalog q \<noteq> None \<and> q \<notin> set order) ps)
      \<le> length (filter (\<lambda>q. map_of catalog q \<noteq> None \<and> q \<notin> set (take i order)) ps)"
  proof -
    fix ps :: "string list"
    show "length (filter (\<lambda>q. map_of catalog q \<noteq> None \<and> q \<notin> set order) ps)
      \<le> length (filter (\<lambda>q. map_of catalog q \<noteq> None \<and> q \<notin> set (take i order)) ps)"
      by (induction ps) (auto dest: in_set_takeD)
  qed
  then show ?thesis by (simp add: remaining_def split: option.splits)
qed

lemma ready_iff:
  "c \<in> set (ready catalog done) \<longleftrightarrow>
     map_of catalog c \<noteq> None \<and> c \<notin> set done \<and> remaining catalog done c = 0"
  by (auto simp: ready_def map_of_eq_None_iff)

lemma trace_done_remaining:
  assumes "trace_ok catalog order" and "c \<in> set order"
  shows "remaining catalog order c = 0"
proof -
  from assms(2) obtain i where i: "i < length order" "order ! i = c"
    by (auto simp: in_set_conv_nth)
  with assms(1) have "remaining catalog (take i order) c = 0"
    by (auto simp: trace_ok_def is_next_def ready_iff)
  with remaining_take [of catalog order c i] show ?thesis by simp
qed

lemma trace_ok_snoc:
  assumes "trace_ok catalog order" and "is_next catalog order u"
  shows "trace_ok catalog (order @ [u])"
  unfolding trace_ok_def
proof (intro allI impI)
  fix i assume "i < length (order @ [u])"
  then consider "i < length order" | "i = length order" by fastforce
  then show "is_next catalog (take i (order @ [u])) ((order @ [u]) ! i)"
  proof cases
    case 1
    with assms(1) show ?thesis by (simp add: trace_ok_def nth_append)
  next
    case 2
    with assms(2) show ?thesis by simp
  qed
qed

lemma kahn_step_inv:
  assumes inv: "kahn_inv catalog (adj, zero, indegree, order)" and ne: "zero \<noteq> []"
  shows "kahn_inv catalog (kahn_step (adj, zero, indegree, order))"
proof -
  obtain u rest where z: "zero = u # rest" using ne by (cases zero) auto
  from inv have E: "\<And>p c. count_list (lookup [] adj p) c = edges catalog p c"
    and I: "\<And>c. lookup 0 indegree c = int (remaining catalog order c)"
    and so: "sorted zero" and di: "distinct zero"
    and rd: "set zero = set (ready catalog order)"
    and tr: "trace_ok catalog order"
    by (simp_all add: kahn_inv_def)
  from z rd have ur: "u \<in> set (ready catalog order)" by auto
  then have uk: "map_of catalog u \<noteq> None" and uo: "u \<notin> set order"
    and u0: "remaining catalog order u = 0"
    by (simp_all add: ready_iff)
  from z so rd have "\<forall>w \<in> set (ready catalog order). u \<le> w" by auto
  with ur have nx: "is_next catalog order u" by (simp add: is_next_def)
  define vs where "vs = lookup [] adj u"
  obtain zero' indegree' where f: "fold decr vs (rest, indegree) = (zero', indegree')"
    by (cases "fold decr vs (rest, indegree)")
  from z so di have sr: "sorted rest" and dr: "distinct rest" by simp_all
  note e = fold_decr_effect [OF sr dr f]
  have cnt: "\<And>c. count_list vs c = edges catalog u c" by (simp add: vs_def E)
  have st: "\<And>c. remaining catalog order c = edges catalog u c + remaining catalog (order @ [u]) c"
    using remaining_step [OF uo] .
  have I': "\<forall>c. lookup 0 indegree' c = int (remaining catalog (order @ [u]) c)"
  proof
    fix c
    from e have "lookup 0 indegree' c = lookup 0 indegree c - int (count_list vs c)" by simp
    with I [of c] cnt [of c] st [of c] show "lookup 0 indegree' c = int (remaining catalog (order @ [u]) c)"
      by simp
  qed
  have "set zero' = set (ready catalog (order @ [u]))"
  proof (rule set_eqI)
    fix c
    from e have m: "c \<in> set zero' \<longleftrightarrow> c \<in> set rest \<or>
        (c \<in> set vs \<and> 1 \<le> lookup 0 indegree c \<and> lookup 0 indegree c \<le> int (count_list vs c))"
      by auto
    from z di rd have r: "c \<in> set rest \<longleftrightarrow> c \<in> set (ready catalog order) \<and> c \<noteq> u" by auto
    have ek: "0 < edges catalog u c \<Longrightarrow> map_of catalog c \<noteq> None"
      by (auto simp: edges_def split: option.splits)
    have no: "c \<in> set order \<Longrightarrow> remaining catalog order c = 0"
      using trace_done_remaining [OF tr] .
    have vm: "c \<in> set vs \<longleftrightarrow> 0 < edges catalog u c"
      using count_pos_mem [of vs c] cnt [of c] by simp
    show "c \<in> set zero' \<longleftrightarrow> c \<in> set (ready catalog (order @ [u]))"
      unfolding m r vm I ready_iff using st [of c] cnt [of c] ek no u0 by auto
  qed
  moreover have "trace_ok catalog (order @ [u])" using trace_ok_snoc [OF tr nx] .
  moreover have "\<forall>p c. count_list (lookup [] (subscript [] u adj) p) c = edges catalog p c"
    by (simp add: lookup_subscript E)
  moreover have "kahn_step (adj, zero, indegree, order) = (subscript [] u adj, zero', indegree', order @ [u])"
    using f by (simp add: kahn_step_def z vs_def)
  ultimately show ?thesis using e I' by (simp add: kahn_inv_def)
qed

lemma kahn_inv_final:
  "kahn_inv catalog s \<Longrightarrow> kahn_inv catalog (kahn s) \<and> fst (snd (kahn s)) = []"
proof (induction s rule: kahn.induct)
  case (1 adj zero indegree order)
  show ?case
  proof (cases "zero = []")
    case True
    with "1.prems" show ?thesis by (simp add: kahn.simps)
  next
    case False
    from kahn_step_inv [OF "1.prems" False] "1.IH" [OF False] False show ?thesis
      by (simp add: kahn.simps [of adj zero indegree order])
  qed
qed

lemma initZero_fold:
  "sorted acc \<Longrightarrow> distinct acc \<Longrightarrow>
   sorted (fold (\<lambda>kv zero. if snd kv = (0::int) then insort_insert (fst kv) zero else zero) ind acc)
   \<and> distinct (fold (\<lambda>kv zero. if snd kv = 0 then insort_insert (fst kv) zero else zero) ind acc)
   \<and> set (fold (\<lambda>kv zero. if snd kv = 0 then insort_insert (fst kv) zero else zero) ind acc) =
       set acc \<union> {k. (k, 0) \<in> set ind}"
proof (induction ind arbitrary: acc)
  case Nil
  then show ?case by simp
next
  case (Cons x xs)
  show ?case
  proof (cases "snd x = 0")
    case True
    from Cons.prems have "sorted (insort_insert (fst x) acc)" "distinct (insort_insert (fst x) acc)"
      by (simp_all add: sorted_insort_insert distinct_insort_insert)
    from Cons.IH [OF this] True show ?thesis
      by (cases x) (auto simp: set_insort_insert)
  next
    case False
    with Cons.IH [OF Cons.prems] show ?thesis by (cases x) auto
  qed
qed

lemma initZero_effect:
  "sorted (initZero ind) \<and> distinct (initZero ind) \<and> set (initZero ind) = {k. (k, 0) \<in> set ind}"
  using initZero_fold [of "[]" ind] by (simp add: initZero_def)

lemma kahn_inv_init:
  assumes d: "distinct (map fst catalog)" and b: "buildGraph catalog = (adj, indegree)"
  shows "kahn_inv catalog (adj, initZero indegree, indegree, [])"
proof -
  note f = buildGraph_facts [OF d b]
  from f(2) d have di: "distinct (map fst indegree)" by simp
  have "set (initZero indegree) = set (ready catalog [])"
  proof (rule set_eqI)
    fix c
    have "c \<in> set (initZero indegree) \<longleftrightarrow> map_of indegree c = Some 0"
      using initZero_effect [of indegree] di by simp
    also have "\<dots> \<longleftrightarrow> c \<in> fst ` set indegree \<and> lookup 0 indegree c = 0"
      by (auto simp: lookup_def dom_map_of_conv_image_fst [symmetric] split: option.splits)
    also have "\<dots> \<longleftrightarrow> c \<in> fst ` set catalog \<and> remaining catalog [] c = 0"
      using f(2) f(4) [of c] by (metis list.set_map of_nat_eq_0_iff)
    also have "\<dots> \<longleftrightarrow> c \<in> set (ready catalog [])"
      by (auto simp: ready_def)
    finally show "c \<in> set (initZero indegree) \<longleftrightarrow> c \<in> set (ready catalog [])" .
  qed
  then show ?thesis
    using f(3,4) initZero_effect [of indegree] by (simp add: kahn_inv_def trace_ok_def)
qed

lemma topoOrder_trace:
  assumes "distinct (map fst catalog)"
  shows "trace_ok catalog (topoOrder catalog) \<and> set (ready catalog (topoOrder catalog)) = {}"
proof -
  obtain adj indegree where b: "buildGraph catalog = (adj, indegree)"
    by (cases "buildGraph catalog")
  obtain adj' zero' indegree' order where k: "kahn (adj, initZero indegree, indegree, []) = (adj', zero', indegree', order)"
    by (cases "kahn (adj, initZero indegree, indegree, [])") auto
  from kahn_inv_final [OF kahn_inv_init [OF assms b]]
  have "kahn_inv catalog (adj', zero', indegree', order) \<and> zero' = []" unfolding k by auto
  then have "trace_ok catalog order \<and> set (ready catalog order) = {}"
    by (auto simp: kahn_inv_def)
  moreover have "topoOrder catalog = order" by (simp add: topoOrder_def b k)
  ultimately show ?thesis by simp
qed

lemma remaining_zero_iff:
  "map_of catalog c = Some crs \<Longrightarrow>
   remaining catalog done c = 0 \<longleftrightarrow>
     (\<forall>p \<in> set (prereqs crs). map_of catalog p \<noteq> None \<longrightarrow> p \<in> set done)"
  by (auto simp: remaining_def filter_empty_conv)

lemma trace_prereq_before:
  assumes tr: "trace_ok catalog order" and i: "i < length order"
    and e: "0 < edges catalog p (order ! i)"
  shows "\<exists>j < i. order ! j = p"
proof -
  from e obtain crs where c: "map_of catalog (order ! i) = Some crs"
    and p: "map_of catalog p \<noteq> None" "p \<in> set (prereqs crs)"
    by (auto simp: edges_def count_pos_mem split: option.splits if_splits)
  from tr i have "remaining catalog (take i order) (order ! i) = 0"
    by (simp add: trace_ok_def is_next_def ready_iff)
  with remaining_zero_iff [OF c] p have "p \<in> set (take i order)" by blast
  then obtain j where "j < length (take i order)" "take i order ! j = p"
    by (auto simp: in_set_conv_nth)
  then show ?thesis by auto
qed

lemma trace_distinct:
  assumes tr: "trace_ok catalog order"
  shows "distinct order \<and> set order \<subseteq> fst ` set catalog"
proof -
  have "\<And>i j. i < j \<Longrightarrow> j < length order \<Longrightarrow> order ! i \<noteq> order ! j"
  proof -
    fix i j assume ij: "i < j" "j < length order"
    with tr have "order ! j \<notin> set (take j order)"
      by (simp add: trace_ok_def is_next_def ready_iff)
    moreover from ij have "order ! i \<in> set (take j order)"
      by (auto simp: in_set_conv_nth intro!: exI [of _ i])
    ultimately show "order ! i \<noteq> order ! j" by metis
  qed
  then have "distinct order"
    by (metis distinct_conv_nth nat_neq_iff)
  moreover have "set order \<subseteq> fst ` set catalog"
  proof
    fix c assume "c \<in> set order"
    then obtain i where "i < length order" "order ! i = c" by (auto simp: in_set_conv_nth)
    with tr have "map_of catalog c \<noteq> None" by (auto simp: trace_ok_def is_next_def ready_iff)
    then show "c \<in> fst ` set catalog" by (simp add: map_of_eq_None_iff)
  qed
  ultimately show ?thesis by simp
qed

lemma trace_unique:
  assumes a: "trace_ok c1 a" and b: "trace_ok c2 b"
    and ea: "set (ready c1 a) = {}" and eb: "set (ready c2 b) = {}"
    and same: "\<And>done. set (ready c1 done) = set (ready c2 done)"
  shows "a = b"
proof -
  have pre: "n \<le> length a \<Longrightarrow> n \<le> length b \<Longrightarrow> take n a = take n b" for n
  proof (induction n)
    case 0
    show ?case by simp
  next
    case (Suc n)
    then have t: "take n a = take n b" and la: "n < length a" and lb: "n < length b" by simp_all
    from a la have "is_next c1 (take n a) (a ! n)" by (simp add: trace_ok_def)
    moreover from b lb have "is_next c2 (take n b) (b ! n)" by (simp add: trace_ok_def)
    ultimately have "a ! n \<le> b ! n" "b ! n \<le> a ! n"
      using same [of "take n b"] t by (auto simp: is_next_def)
    then have "a ! n = b ! n" by simp
    with t la lb show ?case by (simp add: take_Suc_conv_app_nth)
  qed
  have "\<not> length a < length b"
  proof
    assume l: "length a < length b"
    with pre [of "length a"] have "take (length a) b = a" by simp
    moreover from b l have "is_next c2 (take (length a) b) (b ! length a)" by (simp add: trace_ok_def)
    ultimately show False using ea same [of a] by (auto simp: is_next_def)
  qed
  moreover have "\<not> length b < length a"
  proof
    assume l: "length b < length a"
    with pre [of "length b"] have "take (length b) a = b" by simp
    moreover from a l have "is_next c1 (take (length b) a) (a ! length b)" by (simp add: trace_ok_def)
    ultimately show False using eb same [of b] by (auto simp: is_next_def)
  qed
  ultimately have "length a = length b" by simp
  with pre [of "length a"] show ?thesis by simp
qed

lemma ready_content:
  assumes "map_of c1 = map_of c2"
  shows "set (ready c1 done) = set (ready c2 done)"
proof -
  have "remaining c1 done = remaining c2 done"
  proof (rule ext)
    fix c show "remaining c1 done c = remaining c2 done c"
      unfolding remaining_def assms by (rule refl)
  qed
  with assms show ?thesis by (auto simp: ready_iff simp del: not_None_eq)
qed

text \<open>
  C1. In the sorter's output, every course stands after all of its prerequisites that are
  catalog keys: when the code at position \<open>i\<close> has a prerequisite \<open>p\<close> that is a catalog
  key, \<open>p\<close> stands at a position before \<open>i\<close>.
\<close>

theorem topoOrder_prereqs_first:
  assumes "distinct (map fst catalog)" and "i < length (topoOrder catalog)"
    and "map_of catalog (topoOrder catalog ! i) = Some crs"
    and "p \<in> set (prereqs crs)" and "map_of catalog p \<noteq> None"
  shows "\<exists>j < i. topoOrder catalog ! j = p"
proof -
  from assms(3-5) have "0 < edges catalog p (topoOrder catalog ! i)"
    by (auto simp: edges_def count_pos_mem)
  with topoOrder_trace [OF assms(1)] assms(2) show ?thesis
    by (blast intro: trace_prereq_before)
qed

theorem topoOrder_prereqs_first_witness:
  "distinct (map fst dupCatalog) \<and> 2 < length (topoOrder dupCatalog)
   \<and> map_of dupCatalog (topoOrder dupCatalog ! 2) =
        Some \<lparr>number = ''CSCI200'', title = ''Data Structures'',
              prereqs = [''CSCI101'', ''MATH201'', ''CSCI101'']\<rparr>
   \<and> ''CSCI101'' \<in> set [''CSCI101'', ''MATH201'', ''CSCI101'']
   \<and> map_of dupCatalog ''CSCI101'' \<noteq> None
   \<and> (\<exists>j < 2. topoOrder dupCatalog ! j = ''CSCI101'')"
proof -
  let ?crs = "\<lparr>number = ''CSCI200'', title = ''Data Structures'',
              prereqs = [''CSCI101'', ''MATH201'', ''CSCI101'']\<rparr>"
  have d: "distinct (map fst dupCatalog)" by code_simp
  have l: "2 < length (topoOrder dupCatalog)" by code_simp
  have c: "map_of dupCatalog (topoOrder dupCatalog ! 2) = Some ?crs" by code_simp
  have p: "''CSCI101'' \<in> set (prereqs ?crs)" by simp
  have k: "map_of dupCatalog ''CSCI101'' \<noteq> None" by code_simp
  from topoOrder_prereqs_first [OF d l c p k] d l c k show ?thesis by simp
qed

lemma printOrder_total:
  "set ks \<subseteq> fst ` set catalog \<Longrightarrow> \<exists>out'. printOrder catalog ks i out = Inr out'"
proof (induction ks arbitrary: i out)
  case Nil
  show ?case by simp
next
  case (Cons k ks)
  then have "k \<in> fst ` set catalog" by simp
  then obtain c where "map_of catalog k = Some c"
    by (metis map_of_eq_None_iff not_None_eq)
  with Cons show ?case by (simp add: umap_at_def)
qed

text \<open>
  C10. The sorter's output holds catalog keys only, each at most once; so \<open>catalog.at\<close>
  finds every code of the output, and printing the recommended order does not throw.
\<close>

theorem topoOrder_keys_once:
  assumes "distinct (map fst catalog)"
  shows "distinct (topoOrder catalog) \<and> set (topoOrder catalog) \<subseteq> fst ` set catalog
       \<and> (\<forall>c \<in> set (topoOrder catalog). \<exists>crs. umap_at catalog c = Inr crs)
       \<and> (\<exists>out. printRecommendedOrder catalog = Inr out)"
proof -
  from topoOrder_trace [OF assms] have tr: "trace_ok catalog (topoOrder catalog)" by simp
  note td = trace_distinct [OF tr]
  have "\<exists>crs. umap_at catalog c = Inr crs" if "c \<in> set (topoOrder catalog)" for c
  proof -
    from that td have "c \<in> fst ` set catalog" by blast
    then obtain crs where "map_of catalog c = Some crs"
      by (metis map_of_eq_None_iff not_None_eq)
    then show ?thesis by (simp add: umap_at_def)
  qed
  moreover obtain listing
    where "printOrder catalog (topoOrder catalog) 0 (''Recommended Course Order:'' @ nl) = Inr listing"
    using printOrder_total td by blast
  then have "\<exists>out. printRecommendedOrder catalog = Inr out"
    by (simp add: printRecommendedOrder_def Let_def)
  ultimately show ?thesis using td by blast
qed

theorem topoOrder_keys_once_witness:
  "distinct (map fst dupCatalog)
   \<and> topoOrder dupCatalog = [''CSCI100'', ''CSCI101'', ''CSCI200'']
   \<and> distinct (topoOrder dupCatalog)
   \<and> (\<exists>out. printRecommendedOrder dupCatalog = Inr out)"
proof -
  have d: "distinct (map fst dupCatalog)" by code_simp
  have t: "topoOrder dupCatalog = [''CSCI100'', ''CSCI101'', ''CSCI200'']" by code_simp
  from topoOrder_keys_once [OF d] d t show ?thesis by blast
qed

lemma reaches_before:
  assumes tr: "trace_ok catalog order" and r: "reaches catalog p c"
  shows "\<forall>i < length order. order ! i = c \<longrightarrow> (\<exists>j < i. order ! j = p)"
  using r
proof (induction rule: reaches.induct)
  case (edge p c)
  with trace_prereq_before [OF tr] show ?case by blast
next
  case (step p q c)
  show ?case
  proof (intro allI impI)
    fix i assume i: "i < length order" "order ! i = c"
    from step.hyps(2) i have "0 < edges catalog q (order ! i)" by simp
    from trace_prereq_before [OF tr i(1) this]
    obtain j where j: "j < i" "order ! j = q" by blast
    with i step.IH obtain k where "k < j" "order ! k = p" by (metis less_trans)
    with j show "\<exists>j < i. order ! j = p" by (metis less_trans)
  qed
qed

lemma reaches_key: "reaches catalog p c \<Longrightarrow> c \<in> fst ` set catalog"
proof (induction rule: reaches.induct)
  case (edge p c)
  then have "map_of catalog c \<noteq> None" by (auto simp: edges_def split: option.splits)
  then show ?case by (simp add: map_of_eq_None_iff)
next
  case (step p q c)
  then have "map_of catalog c \<noteq> None" by (auto simp: edges_def split: option.splits)
  then show ?case by (simp add: map_of_eq_None_iff)
qed

lemma cycle_shorter:
  assumes d: "distinct (map fst catalog)" and tr: "trace_ok catalog order"
    and cy: "has_cycle catalog"
  shows "length order < length catalog"
proof -
  from cy obtain c where c: "reaches catalog c c" by (auto simp: has_cycle_def)
  note td = trace_distinct [OF tr]
  have "c \<notin> set order"
  proof
    assume "c \<in> set order"
    then obtain i where i: "i < length order" "order ! i = c" by (auto simp: in_set_conv_nth)
    with reaches_before [OF tr c] obtain j where j: "j < i" "order ! j = c" by blast
    with i td show False by (auto simp: distinct_conv_nth)
  qed
  with reaches_key [OF c] td have "set order \<subset> fst ` set catalog" by blast
  then have "card (set order) < card (fst ` set catalog)"
    by (simp add: psubset_card_mono)
  moreover from td have "card (set order) = length order" by (simp add: distinct_card)
  moreover from d have "card (fst ` set catalog) = length catalog"
    by (metis distinct_card length_map list.set_map)
  ultimately show ?thesis by simp
qed

lemma printOrder_lines:
  "set ks \<subseteq> fst ` set catalog \<Longrightarrow>
   printOrder catalog ks i out =
     Inr (out @ concat (map (\<lambda>j. courseLine catalog (i + j) (ks ! j)) [0..<length ks]))"
proof (induction ks arbitrary: i out)
  case Nil
  show ?case by simp
next
  case (Cons k ks)
  then have "k \<in> fst ` set catalog" by simp
  then obtain c where c: "map_of catalog k = Some c"
    by (metis map_of_eq_None_iff not_None_eq)
  from Cons.prems have "set ks \<subseteq> fst ` set catalog" by simp
  note ih = Cons.IH [OF this, of "i + 1"]
  have "map (\<lambda>j. courseLine catalog (i + j) ((k # ks) ! j)) [0..<length (k # ks)] =
      courseLine catalog i k # map (\<lambda>j. courseLine catalog (i + 1 + j) (ks ! j)) [0..<length ks]"
    by (simp add: map_upt_Suc del: upt_Suc)
  with c ih show ?case by (simp add: umap_at_def courseLine_def)
qed

text \<open>
  C2. When there is a cycle among the catalog's courses, the output order is strictly
  shorter than the catalog, and what is printed is the heading, one numbered line for
  each code of that partial order, in its order, and then the cycle warning; nothing is
  thrown. The catalog of two courses that require each other gives an order shorter than
  two and the warning; a catalog that has two more courses outside the cycle lists these
  two before the warning.
\<close>

theorem cycle_detected:
  assumes "distinct (map fst catalog)" and "has_cycle catalog"
  shows "length (topoOrder catalog) < length catalog
       \<and> set (topoOrder catalog) \<subseteq> fst ` set catalog
       \<and> printRecommendedOrder catalog =
           Inr (''Recommended Course Order:'' @ nl
                @ orderListing catalog (topoOrder catalog)
                @ nl @ ''Warning: Circular dependency detected.'' @ nl)"
proof -
  from topoOrder_trace [OF assms(1)] have tr: "trace_ok catalog (topoOrder catalog)" by simp
  note l = cycle_shorter [OF assms(1) tr assms(2)]
  then have ne: "catalog \<noteq> []" by auto
  from trace_distinct [OF tr] have ks: "set (topoOrder catalog) \<subseteq> fst ` set catalog" by simp
  from printOrder_lines [OF ks, of 0 "''Recommended Course Order:'' @ nl"]
  have "printOrder catalog (topoOrder catalog) 0 (''Recommended Course Order:'' @ nl) =
      Inr ((''Recommended Course Order:'' @ nl) @ orderListing catalog (topoOrder catalog))"
    by (simp add: orderListing_def)
  with l ne have "printRecommendedOrder catalog =
      Inr (''Recommended Course Order:'' @ nl @ orderListing catalog (topoOrder catalog)
           @ nl @ ''Warning: Circular dependency detected.'' @ nl)"
    by (simp add: printRecommendedOrder_def Let_def)
  with l ks show ?thesis by blast
qed

theorem cycle_detected_witness:
  "distinct (map fst cycCatalog) \<and> has_cycle cycCatalog
   \<and> length (topoOrder cycCatalog) < 2
   \<and> printRecommendedOrder cycCatalog =
       Inr (''Recommended Course Order:'' @ nl @ nl @ ''Warning: Circular dependency detected.'' @ nl)
   \<and> distinct (map fst partCatalog) \<and> has_cycle partCatalog
   \<and> topoOrder partCatalog = [''X'', ''E'']
   \<and> printRecommendedOrder partCatalog =
       Inr (''Recommended Course Order:'' @ nl @ ''1. X - Free'' @ nl @ ''2. E - After X'' @ nl
            @ nl @ ''Warning: Circular dependency detected.'' @ nl)"
proof -
  have d: "distinct (map fst cycCatalog)" by code_simp
  have "0 < edges cycCatalog ''A'' ''B''" by code_simp
  then have "reaches cycCatalog ''A'' ''B''" by (rule reaches.edge)
  moreover have "0 < edges cycCatalog ''B'' ''A''" by code_simp
  ultimately have "reaches cycCatalog ''A'' ''A''" by (rule reaches.step)
  then have c: "has_cycle cycCatalog" unfolding has_cycle_def by (rule exI)
  have n: "length cycCatalog = 2" by code_simp
  note t = cycle_detected [OF d c]
  from t n have l: "length (topoOrder cycCatalog) < 2" by simp
  have "Inr (''Recommended Course Order:'' @ nl @ orderListing cycCatalog (topoOrder cycCatalog)
           @ nl @ ''Warning: Circular dependency detected.'' @ nl) =
      (Inr (''Recommended Course Order:'' @ nl @ nl @ ''Warning: Circular dependency detected.'' @ nl)
        :: exn + string)"
    by code_simp
  with t have p: "printRecommendedOrder cycCatalog =
       Inr (''Recommended Course Order:'' @ nl @ nl @ ''Warning: Circular dependency detected.'' @ nl)"
    by (simp only:)
  have d': "distinct (map fst partCatalog)" by code_simp
  have "0 < edges partCatalog ''A'' ''B''" by code_simp
  then have "reaches partCatalog ''A'' ''B''" by (rule reaches.edge)
  moreover have "0 < edges partCatalog ''B'' ''A''" by code_simp
  ultimately have "reaches partCatalog ''A'' ''A''" by (rule reaches.step)
  then have c': "has_cycle partCatalog" unfolding has_cycle_def by (rule exI)
  have o': "topoOrder partCatalog = [''X'', ''E'']" by code_simp
  note t' = cycle_detected [OF d' c']
  have "Inr (''Recommended Course Order:'' @ nl @ orderListing partCatalog (topoOrder partCatalog)
           @ nl @ ''Warning: Circular dependency detected.'' @ nl) =
      (Inr (''Recommended Course Order:'' @ nl @ ''1. X - Free'' @ nl @ ''2. E - After X'' @ nl
            @ nl @ ''Warning: Circular dependency detected.'' @ nl) :: exn + string)"
    by code_simp
  with t' have p': "printRecommendedOrder partCatalog =
       Inr (''Recommended Course Order:'' @ nl @ ''1. X - Free'' @ nl @ ''2. E - After X'' @ nl
            @ nl @ ''Warning: Circular dependency detected.'' @ nl)"
    by (simp only:)
  from d c l p d' c' o' p' show ?thesis by blast
qed

text \<open>
  C3. At every step the code appended to the output is a ready code (a key not yet out,
  with remaining in-degree zero) and the smallest of the ready codes in the
  lexicographic order of \<open>std::string\<close>. The order is a function of the catalog's content:
  two catalogs with the same entries, in whatever order the containers iterate, give the
  same output.
\<close>

theorem topoOrder_smallest_ready_first:
  assumes "distinct (map fst catalog)"
  shows "(\<forall>i < length (topoOrder catalog).
            topoOrder catalog ! i \<in> set (ready catalog (take i (topoOrder catalog)))
            \<and> (\<forall>w \<in> set (ready catalog (take i (topoOrder catalog))). topoOrder catalog ! i \<le> w))
       \<and> (\<forall>catalog'. distinct (map fst catalog') \<and> set catalog' = set catalog
            \<longrightarrow> topoOrder catalog' = topoOrder catalog)"
proof -
  note t = topoOrder_trace [OF assms]
  have "topoOrder catalog' = topoOrder catalog"
    if d': "distinct (map fst catalog')" and s: "set catalog' = set catalog" for catalog'
  proof -
    from d' assms s have m: "map_of catalog' = map_of catalog"
      by (simp add: map_of_inject_set)
    note t' = topoOrder_trace [OF d']
    show ?thesis
      using trace_unique [of catalog' "topoOrder catalog'" catalog "topoOrder catalog"]
        t t' ready_content [OF m] by blast
  qed
  with t show ?thesis by (simp add: trace_ok_def is_next_def)
qed

theorem topoOrder_smallest_ready_first_witness:
  "distinct (map fst tieCatalog)
   \<and> topoOrder tieCatalog = [''A'', ''B'', ''C'']
   \<and> set (ready tieCatalog []) = {''A'', ''B''}
   \<and> topoOrder tieCatalog ! 0 \<in> set (ready tieCatalog (take 0 (topoOrder tieCatalog)))
   \<and> distinct (map fst (rev tieCatalog)) \<and> set (rev tieCatalog) = set tieCatalog
   \<and> topoOrder (rev tieCatalog) = topoOrder tieCatalog"
proof -
  have d: "distinct (map fst tieCatalog)" by code_simp
  have o: "topoOrder tieCatalog = [''A'', ''B'', ''C'']" by code_simp
  have r: "set (ready tieCatalog []) = {''A'', ''B''}" by code_simp
  have d': "distinct (map fst (rev tieCatalog))" by code_simp
  have s: "set (rev tieCatalog) = set tieCatalog" by simp
  note t = topoOrder_smallest_ready_first [OF d]
  from o have "0 < length (topoOrder tieCatalog)" by simp
  with t have "topoOrder tieCatalog ! 0 \<in> set (ready tieCatalog (take 0 (topoOrder tieCatalog)))"
    by blast
  moreover from t d' s have "topoOrder (rev tieCatalog) = topoOrder tieCatalog" by blast
  ultimately show ?thesis using d o r d' s by blast
qed

end
